theory Spec2Isabelle
  imports Complex_Main "HOL-Library.Word"
begin

section \<open>Ultrasonic rangefinder and servo scanner: the sweep sketch\<close>

text \<open>
  The development follows \<^verbatim>\<open>SensorCalibration(1).ino\<close>, the sweep sketch of the
  repository, function by function. The sketch runs on an AVR board: \<^verbatim>\<open>int\<close> has 16
  bits, \<^verbatim>\<open>long\<close> and \<^verbatim>\<open>unsigned long\<close> have 32. Angles and pulse widths are modelled
  as \<^typ>\<open>int\<close>: the values the sketch computes stay far inside the 16-bit range
  (the lemma \<open>advance_no_overflow\<close> below shows it for the sweep). The millisecond
  clock is a \<^typ>\<open>32 word\<close>, as its subtraction wraps around.
\<close>

subsection \<open>Servo: angle to pulse width\<close>

text \<open>
  The quotient of C's \<^verbatim>\<open>/\<close> on integers drops the fraction, whatever the signs are;
  \<open>div\<close> of HOL rounds down instead.
\<close>

definition c_div :: "int \<Rightarrow> int \<Rightarrow> int" where
  "c_div a b = (if (a < 0) = (b < 0) then \<bar>a\<bar> div \<bar>b\<bar> else - (\<bar>a\<bar> div \<bar>b\<bar>))"

text \<open>
  \<^verbatim>\<open>constrain\<close> and \<^verbatim>\<open>map\<close> belong to the Arduino core, not to the repository.
  The core defines them as
  \<^verbatim>\<open>#define constrain(amt,low,high) ((amt)<(low)?(low):((amt)>(high)?(high):(amt)))\<close>
  and
  \<^verbatim>\<open>long map(long x, long in_min, long in_max, long out_min, long out_max) {
    return (x - in_min) * (out_max - out_min) / (in_max - in_min) + out_min; }\<close>
  in \<^verbatim>\<open>long\<close> arithmetic. For the arguments \<open>usFromAngle\<close> passes, the largest
  intermediate value is \<open>180 * 2000\<close>, which a \<^verbatim>\<open>long\<close> holds.
\<close>

definition constrain :: "int \<Rightarrow> int \<Rightarrow> int \<Rightarrow> int" where
  "constrain amt low high = (if amt < low then low else if amt > high then high else amt)"

definition map_long :: "int \<Rightarrow> int \<Rightarrow> int \<Rightarrow> int \<Rightarrow> int \<Rightarrow> int" where
  "map_long x in_min in_max out_min out_max =
     c_div ((x - in_min) * (out_max - out_min)) (in_max - in_min) + out_min"

definition usFromAngle :: "int \<Rightarrow> int" where
  "usFromAngle deg = map_long (constrain deg 0 180) 0 180 500 2500"

subsection \<open>Floating point as a parameter\<close>

text \<open>
  The sketch computes distances in \<^verbatim>\<open>float\<close> (IEEE 754 single precision on the AVR).
  The float type and its operations are a parameter of the model: \<open>'f\<close> is the type of
  floats, \<open>lit q\<close> is the float a literal or an integer of value \<open>q\<close> converts to,
  \<open>fadd\<close>, \<open>fsub\<close>, \<open>fmul\<close>, \<open>fdiv\<close> are the four operations, \<open>fgt\<close> is the comparison \<^verbatim>\<open>>\<close>,
  \<open>isfinite\<close> and \<open>NAN\<close> are those of \<^verbatim>\<open>math.h\<close>, and \<open>print_float x d\<close> is the text
  \<^verbatim>\<open>Serial.print(x, d)\<close> writes. Every equation below is therefore an equation
  of float arithmetic, in the order the source evaluates it.
\<close>

record 'f float_ops =
  lit :: "rat \<Rightarrow> 'f"
  fadd :: "'f \<Rightarrow> 'f \<Rightarrow> 'f"
  fsub :: "'f \<Rightarrow> 'f \<Rightarrow> 'f"
  fmul :: "'f \<Rightarrow> 'f \<Rightarrow> 'f"
  fdiv :: "'f \<Rightarrow> 'f \<Rightarrow> 'f"
  fgt :: "'f \<Rightarrow> 'f \<Rightarrow> bool"
  isfinite :: "'f \<Rightarrow> bool"
  NAN :: "'f"
  print_float :: "'f \<Rightarrow> nat \<Rightarrow> string"

text \<open>
  What IEEE 754 says of NaN, for the operations the sketch applies to a reading: an
  operation with a NaN operand gives NaN, and NaN is not finite.
\<close>

definition nan_propagates :: "'f float_ops \<Rightarrow> bool" where
  "nan_propagates ops \<longleftrightarrow>
     (\<forall>x. fmul ops x (NAN ops) = NAN ops) \<and>
     (\<forall>y. fsub ops (NAN ops) y = NAN ops) \<and>
     (\<forall>y. fdiv ops (NAN ops) y = NAN ops) \<and>
     \<not> isfinite ops (NAN ops)"

text \<open>
  An instance with exact rational arithmetic, \<open>None\<close> for NaN (and for a division by
  zero), used to run the model on concrete inputs. Its printer is a stand-in that
  writes no digits.
\<close>

definition exact_ops :: "rat option float_ops" where
  "exact_ops = \<lparr>
     lit = Some,
     fadd = (\<lambda>x y. case (x, y) of (Some a, Some b) \<Rightarrow> Some (a + b) | _ \<Rightarrow> None),
     fsub = (\<lambda>x y. case (x, y) of (Some a, Some b) \<Rightarrow> Some (a - b) | _ \<Rightarrow> None),
     fmul = (\<lambda>x y. case (x, y) of (Some a, Some b) \<Rightarrow> Some (a * b) | _ \<Rightarrow> None),
     fdiv = (\<lambda>x y. case (x, y) of (Some a, Some b) \<Rightarrow> (if b = 0 then None else Some (a / b))
                                 | _ \<Rightarrow> None),
     fgt = (\<lambda>x y. case (x, y) of (Some a, Some b) \<Rightarrow> a > b | _ \<Rightarrow> False),
     isfinite = (\<lambda>x. case x of Some a \<Rightarrow> True | None \<Rightarrow> False),
     NAN = None,
     print_float = (\<lambda>x d. case x of Some a \<Rightarrow> ''#'' | None \<Rightarrow> ''nan'')
   \<rparr>"

subsection \<open>Pins, globals and the state of the sketch\<close>

datatype level = LOW | HIGH

definition trig_pin :: nat where "trig_pin = 7"
definition echo_pin :: nat where "echo_pin = 8"
definition pinServo :: nat where "pinServo = 10"
definition stop_button :: nat where "stop_button = 4"
definition mode_button :: nat where "mode_button = 3"
definition ledGreen :: nat where "ledGreen = 13"
definition ledRed :: nat where "ledRed = 12"
definition ledYellow :: nat where "ledYellow = 11"
definition ledBlue :: nat where "ledBlue = 9"

definition startAngle :: int where "startAngle = 30"
definition endAngle :: int where "endAngle = 150"
definition samplesPerAngle :: int where "samplesPerAngle = 10"
definition stepInterval :: "32 word" where "stepInterval = 500"

text \<open>
  The globals of the sketch and the \<^verbatim>\<open>static\<close> locals of \<^verbatim>\<open>loop\<close>, then what the
  sketch has done to the outside: the level of each output pin, the number of trigger
  pulses sent, the HIGH time of each servo frame sent, and the calls of
  \<^verbatim>\<open>sendAngleBlock\<close> in order, each with its arguments \<open>(angle_deg, a, currentMode)\<close>.
\<close>

record 'f sketch =
  incrementAngle :: int
  emergency_stop :: bool
  currentMode :: int
  stop_WasPressed :: bool
  mode_WasPressed :: bool
  stop_buttonstate :: level
  mode_buttonstate :: level
  lastStepTime :: "32 word"
  ang :: int
  direction :: int
  repeatBoundary :: bool
  firstCycle :: bool
  pins :: "nat \<Rightarrow> level"
  triggers :: nat
  servo_frames :: "int list"
  sent :: "(int \<times> 'f list \<times> int) list"

text \<open>
  What one pass of \<^verbatim>\<open>loop\<close> reads from the outside: the two buttons, and the clock at
  its two calls of \<^verbatim>\<open>millis()\<close>. The sensor is a function \<open>echo\<close>: \<open>echo k\<close> is the
  width \<^verbatim>\<open>pulseIn\<close> returns after trigger pulse number \<open>k\<close> (0 on a timeout).
\<close>

record tick_in =
  stop_read :: level
  mode_read :: level
  millis_check :: "32 word"
  millis_stamp :: "32 word"

definition digitalWrite :: "nat \<Rightarrow> level \<Rightarrow> 'f sketch \<Rightarrow> 'f sketch" where
  "digitalWrite pin v s = s\<lparr>pins := (pins s)(pin := v)\<rparr>"

text \<open>The state after \<^verbatim>\<open>setup()\<close>, with the initialisers of the globals and statics.\<close>

definition init :: "'f sketch" where
  "init = \<lparr>
     incrementAngle = 10,
     emergency_stop = False,
     currentMode = 0,
     stop_WasPressed = False,
     mode_WasPressed = False,
     stop_buttonstate = LOW,
     mode_buttonstate = LOW,
     lastStepTime = 0,
     ang = startAngle,
     direction = 1,
     repeatBoundary = False,
     firstCycle = True,
     pins = (\<lambda>_. LOW),
     triggers = 0,
     servo_frames = [],
     sent = []
   \<rparr>"

subsection \<open>Ultrasonic sensor\<close>

definition sendTrig :: "'f sketch \<Rightarrow> 'f sketch" where
  "sendTrig s =
     (let s1 = digitalWrite trig_pin LOW s;
          s2 = digitalWrite trig_pin HIGH s1;
          s3 = digitalWrite trig_pin LOW s2
      in s3\<lparr>triggers := Suc (triggers s3)\<rparr>)"

definition measureEcho :: "(nat \<Rightarrow> 32 word) \<Rightarrow> 'f sketch \<Rightarrow> 32 word \<times> 'f sketch" where
  "measureEcho echo s = (echo (triggers s), sendTrig s)"

text \<open>
  Lines 118 and 119: what \<^verbatim>\<open>readDistanceCm\<close> returns for the width \<open>e\<close> that
  \<^verbatim>\<open>measureEcho\<close> gave it, \<^verbatim>\<open>echo * 0.0343f * 0.5f\<close> evaluated from the left.
\<close>

definition echo_cm :: "'f float_ops \<Rightarrow> 32 word \<Rightarrow> 'f" where
  "echo_cm ops e =
     (if e = 0 then NAN ops
      else fmul ops (fmul ops (lit ops (of_nat (unat e))) (lit ops (343 / 10000)))
             (lit ops (1 / 2)))"

definition readDistanceCm ::
  "'f float_ops \<Rightarrow> (nat \<Rightarrow> 32 word) \<Rightarrow> 'f sketch \<Rightarrow> 'f \<times> 'f sketch" where
  "readDistanceCm ops echo s = (let (e, s') = measureEcho echo s in (echo_cm ops e, s'))"

definition sensorCalibration :: "'f float_ops \<Rightarrow> 'f \<Rightarrow> 'f" where
  "sensorCalibration ops meas_cm =
     fdiv ops (fsub ops (fmul ops (lit ops (1049396 / 1000000)) meas_cm)
                 (lit ops (673890 / 1000000)))
       (lit ops 100)"

subsection \<open>Servo frames\<close>

definition servoPulse :: "int \<Rightarrow> 'f sketch \<Rightarrow> 'f sketch" where
  "servoPulse t_high_us s =
     (let s1 = digitalWrite pinServo HIGH s;
          s2 = digitalWrite pinServo LOW s1
      in s2\<lparr>servo_frames := servo_frames s2 @ [t_high_us]\<rparr>)"

definition setServoAngle :: "int \<Rightarrow> 'f sketch \<Rightarrow> 'f sketch" where
  "setServoAngle angle_deg s = servoPulse (usFromAngle angle_deg) s"

subsection \<open>Scanning at one angle\<close>

text \<open>
  The locals of \<^verbatim>\<open>scanAtAngle\<close> are the buffer \<open>out\<close>, \<open>sum\<close> and \<open>cnt\<close>; the body of its
  second \<^verbatim>\<open>for\<close> loop is \<open>scan_sample\<close>, run for \<open>i = 0, \<dots>, n - 1\<close>.
\<close>

text \<open>Line 166: the test \<^verbatim>\<open>isfinite(d_m) && d_m > 0.0f\<close>.\<close>

definition valid_sample :: "'f float_ops \<Rightarrow> 'f \<Rightarrow> bool" where
  "valid_sample ops d_m \<longleftrightarrow> isfinite ops d_m \<and> fgt ops d_m (lit ops 0)"

definition scan_sample ::
  "'f float_ops \<Rightarrow> (nat \<Rightarrow> 32 word) \<Rightarrow> nat \<Rightarrow>
   'f list \<times> 'f \<times> int \<times> 'f sketch \<Rightarrow> 'f list \<times> 'f \<times> int \<times> 'f sketch" where
  "scan_sample ops echo i = (\<lambda>(out, sum, cnt, s).
     let (d_cm, s') = readDistanceCm ops echo s;
         d_m = sensorCalibration ops d_cm;
         out' = out[i := d_m]
     in if valid_sample ops d_m
        then (out', fadd ops sum d_m, cnt + 1, s')
        else (out', sum, cnt, s'))"

definition scanAtAngle ::
  "'f float_ops \<Rightarrow> (nat \<Rightarrow> 32 word) \<Rightarrow> int \<Rightarrow> 'f sketch \<Rightarrow> 'f list \<times> 'f sketch" where
  "scanAtAngle ops echo angle_deg s =
     (let out0 = replicate 11 (lit ops 0);
          s1 = setServoAngle angle_deg s;
          n = (if samplesPerAngle > 10 then 10 else samplesPerAngle);
          (out, sum, cnt, s2) =
             fold (scan_sample ops echo) [0..<nat n] (out0, lit ops 0, 0, s1)
      in (out[10 := (if cnt > 0 then fdiv ops sum (lit ops (of_int cnt)) else NAN ops)], s2))"

subsection \<open>The report line\<close>

text \<open>
  \<^verbatim>\<open>Serial.print(int)\<close> writes the decimal digits of the number, with a minus sign
  when it is negative; \<^verbatim>\<open>Serial.println()\<close> writes a carriage return and a line feed.
\<close>

fun digits_of :: "nat \<Rightarrow> string" where
  "digits_of n =
     (if n < 10 then [char_of (48 + n)] else digits_of (n div 10) @ [char_of (48 + n mod 10)])"

declare digits_of.simps [simp del]

definition print_int :: "int \<Rightarrow> string" where
  "print_int i = (if i < 0 then CHR ''-'' # digits_of (nat (- i)) else digits_of (nat i))"

definition sendAngleBlock :: "'f float_ops \<Rightarrow> int \<Rightarrow> 'f list \<Rightarrow> int \<Rightarrow> string" where
  "sendAngleBlock ops angle_deg a mode =
     print_int (if mode = 0 then 1 else 2) @ '','' @ print_int angle_deg @
     concat (map (\<lambda>i. '','' @ print_float ops (a ! i) 2) [0..<11]) @
     [CHR 0x0D, CHR 0x0A]"

text \<open>Everything the sketch has written to the serial line.\<close>

definition serial_text :: "'f float_ops \<Rightarrow> 'f sketch \<Rightarrow> string" where
  "serial_text ops s = concat (map (\<lambda>(angle_deg, a, mode). sendAngleBlock ops angle_deg a mode) (sent s))"

subsection \<open>Buttons\<close>

definition stop_checkButton :: "level \<Rightarrow> 'f sketch \<Rightarrow> 'f sketch" where
  "stop_checkButton rd s =
     (let s1 = s\<lparr>stop_buttonstate := rd\<rparr>;
          s2 = (if \<not> stop_WasPressed s1 \<and> stop_buttonstate s1 = HIGH
                then s1\<lparr>stop_WasPressed := True, emergency_stop := \<not> emergency_stop s1\<rparr>
                else s1)
      in if stop_buttonstate s2 = LOW then s2\<lparr>stop_WasPressed := False\<rparr> else s2)"

definition stop_all :: "'f sketch \<Rightarrow> 'f sketch" where
  "stop_all s =
     digitalWrite ledGreen LOW (digitalWrite ledRed HIGH
       (digitalWrite pinServo LOW (digitalWrite trig_pin LOW s)))"

definition mode_checkButton :: "level \<Rightarrow> 'f sketch \<Rightarrow> 'f sketch" where
  "mode_checkButton rd s =
     (let s1 = s\<lparr>mode_buttonstate := rd\<rparr>;
          s2 = (if \<not> mode_WasPressed s1 \<and> mode_buttonstate s1 = HIGH
                then s1\<lparr>mode_WasPressed := True,
                        currentMode := (if currentMode s1 = 0 then 1 else 0)\<rparr>
                else s1)
      in if mode_buttonstate s2 = LOW then s2\<lparr>mode_WasPressed := False\<rparr> else s2)"

subsection \<open>The main loop\<close>

text \<open>Lines 282 to 285: the angle moves one step and is clamped into the sweep range.\<close>

definition advance :: "'f sketch \<Rightarrow> 'f sketch" where
  "advance s =
     (let a = ang s + direction s * incrementAngle s;
          a1 = (if a < startAngle then startAngle else a);
          a2 = (if a1 > endAngle then endAngle else a1)
      in s\<lparr>ang := a2\<rparr>)"

text \<open>
  Lines 268 to 285: what follows the report. The \<^verbatim>\<open>return\<close> of the second branch
  leaves \<^verbatim>\<open>loop\<close> before the angle moves.
\<close>

definition turn_or_advance :: "'f sketch \<Rightarrow> 'f sketch" where
  "turn_or_advance s =
     (if ang s = startAngle \<or> ang s = endAngle then
        (if firstCycle s then advance (s\<lparr>firstCycle := False\<rparr>)
         else if \<not> repeatBoundary s then s\<lparr>repeatBoundary := True\<rparr>
         else advance (s\<lparr>repeatBoundary := False, direction := - direction s\<rparr>))
      else advance s)"

text \<open>Lines 256 to 285: one step of the sweep, taken when the step interval has passed.\<close>

definition sweep_step ::
  "'f float_ops \<Rightarrow> (nat \<Rightarrow> 32 word) \<Rightarrow> tick_in \<Rightarrow> 'f sketch \<Rightarrow> 'f sketch" where
  "sweep_step ops echo inp s =
     (let s1 = s\<lparr>lastStepTime := millis_stamp inp\<rparr>;
          s2 = (if currentMode s1 \<noteq> 0
                then digitalWrite ledBlue LOW (digitalWrite ledYellow HIGH s1)
                else digitalWrite ledBlue HIGH (digitalWrite ledYellow LOW s1));
          (buf, s3) = scanAtAngle ops echo (ang s2) s2;
          s4 = s3\<lparr>sent := sent s3 @ [(ang s3, buf, currentMode s3)]\<rparr>
      in turn_or_advance s4)"

text \<open>Lines 243 to 245: both buttons are read, then the step size follows the mode.\<close>

definition poll_buttons :: "tick_in \<Rightarrow> 'f sketch \<Rightarrow> 'f sketch" where
  "poll_buttons inp s =
     (let s1 = stop_checkButton (stop_read inp) s;
          s2 = mode_checkButton (mode_read inp) s1
      in s2\<lparr>incrementAngle := (if currentMode s2 = 0 then 10 else 20)\<rparr>)"

definition loop ::
  "'f float_ops \<Rightarrow> (nat \<Rightarrow> 32 word) \<Rightarrow> tick_in \<Rightarrow> 'f sketch \<Rightarrow> 'f sketch" where
  "loop ops echo inp s =
     (let s3 = poll_buttons inp s
      in if \<not> emergency_stop s3 then
           (let s4 = digitalWrite ledRed LOW (digitalWrite ledGreen HIGH s3)
            in if millis_check inp - lastStepTime s4 \<ge> stepInterval
               then sweep_step ops echo inp s4
               else s4)
         else stop_all s3)"

text \<open>The sketch calls \<^verbatim>\<open>loop\<close> again and again: one input per pass.\<close>

fun run ::
  "'f float_ops \<Rightarrow> (nat \<Rightarrow> 32 word) \<Rightarrow> tick_in list \<Rightarrow> 'f sketch \<Rightarrow> 'f sketch" where
  "run ops echo [] s = s"
| "run ops echo (inp # inps) s = run ops echo inps (loop ops echo inp s)"

subsection \<open>Notions used in the statements\<close>

text \<open>
  The calibrated reading for an echo of width \<open>e\<close>, and the first \<open>n\<close> readings of a
  scan that starts at trigger pulse number \<open>t0\<close>.
\<close>

definition reading :: "'f float_ops \<Rightarrow> 32 word \<Rightarrow> 'f" where
  "reading ops e = sensorCalibration ops (echo_cm ops e)"

definition readings :: "'f float_ops \<Rightarrow> (nat \<Rightarrow> 32 word) \<Rightarrow> nat \<Rightarrow> nat \<Rightarrow> 'f list" where
  "readings ops echo t0 n = map (\<lambda>i. reading ops (echo (t0 + i))) [0..<n]"

text \<open>The state after \<open>n\<close> more trigger pulses.\<close>

definition triggered :: "nat \<Rightarrow> 'f sketch \<Rightarrow> 'f sketch" where
  "triggered n s =
     (if n = 0 then s else s\<lparr>pins := (pins s)(trig_pin := LOW), triggers := triggers s + n\<rparr>)"

text \<open>
  The mean as line 172 computes it from the readings \<open>vs\<close> that passed the test of
  line 166: their sum from the left, starting at \<open>0.0f\<close>, divided by their number.
\<close>

definition mean_of :: "'f float_ops \<Rightarrow> 'f list \<Rightarrow> 'f" where
  "mean_of ops vs =
     (if vs = [] then NAN ops
      else fdiv ops (foldl (fadd ops) (lit ops 0) vs) (lit ops (of_nat (length vs))))"

text \<open>The buffer one scan fills when it starts at trigger pulse number \<open>t0\<close>.\<close>

definition scan_buf :: "'f float_ops \<Rightarrow> (nat \<Rightarrow> 32 word) \<Rightarrow> nat \<Rightarrow> 'f list" where
  "scan_buf ops echo t0 =
     readings ops echo t0 10 @
       [mean_of ops (filter (valid_sample ops) (readings ops echo t0 10))]"

text \<open>
  A pass of \<^verbatim>\<open>loop\<close> takes a sweep step when, after the buttons are read, the stop flag
  is clear and the step interval has passed (lines 252 and 255).
\<close>

definition takes_step :: "tick_in \<Rightarrow> 'f sketch \<Rightarrow> bool" where
  "takes_step inp s \<longleftrightarrow>
     \<not> emergency_stop (poll_buttons inp s) \<and> millis_check inp - lastStepTime s \<ge> stepInterval"

definition at_boundary :: "'f sketch \<Rightarrow> bool" where
  "at_boundary s \<longleftrightarrow> ang s = startAngle \<or> ang s = endAngle"

text \<open>
  The stop flag is set at every pass of the run, when line 252 tests it.
\<close>

fun stopped_run ::
  "'f float_ops \<Rightarrow> (nat \<Rightarrow> 32 word) \<Rightarrow> tick_in list \<Rightarrow> 'f sketch \<Rightarrow> bool" where
  "stopped_run ops echo [] s = True"
| "stopped_run ops echo (inp # inps) s =
     (emergency_stop (poll_buttons inp s) \<and> stopped_run ops echo inps (loop ops echo inp s))"

text \<open>
  The input of a pass that reads the given button levels at clock \<open>ms\<close>, both calls of
  \<^verbatim>\<open>millis()\<close> returning the same value.
\<close>

definition tick :: "level \<Rightarrow> level \<Rightarrow> nat \<Rightarrow> tick_in" where
  "tick st md ms =
     \<lparr>stop_read = st, mode_read = md, millis_check = of_nat ms, millis_stamp = of_nat ms\<rparr>"

text \<open>The angle is inside the sweep range and the direction is forward or backward.\<close>

definition sweep_inv :: "'f sketch \<Rightarrow> bool" where
  "sweep_inv s \<longleftrightarrow>
     startAngle \<le> ang s \<and> ang s \<le> endAngle \<and> (direction s = 1 \<or> direction s = - 1)"

text \<open>
  The level a was-pressed latch remembers, the number of LOW-to-HIGH transitions in the
  readings \<open>xs\<close> that follow a reading \<open>prev\<close>, and the number of passes of a run in
  which the stop flag, or the mode, changes.
\<close>

definition latch_level :: "bool \<Rightarrow> level" where
  "latch_level was_pressed = (if was_pressed then HIGH else LOW)"

fun rising_edges :: "level \<Rightarrow> level list \<Rightarrow> nat" where
  "rising_edges prev [] = 0"
| "rising_edges prev (x # xs) = (if prev = LOW \<and> x = HIGH then 1 else 0) + rising_edges x xs"

fun stop_toggles ::
  "'f float_ops \<Rightarrow> (nat \<Rightarrow> 32 word) \<Rightarrow> tick_in list \<Rightarrow> 'f sketch \<Rightarrow> nat" where
  "stop_toggles ops echo [] s = 0"
| "stop_toggles ops echo (inp # inps) s =
     (if emergency_stop (loop ops echo inp s) \<noteq> emergency_stop s then 1 else 0) +
     stop_toggles ops echo inps (loop ops echo inp s)"

fun mode_toggles ::
  "'f float_ops \<Rightarrow> (nat \<Rightarrow> 32 word) \<Rightarrow> tick_in list \<Rightarrow> 'f sketch \<Rightarrow> nat" where
  "mode_toggles ops echo [] s = 0"
| "mode_toggles ops echo (inp # inps) s =
     (if currentMode (loop ops echo inp s) \<noteq> currentMode s then 1 else 0) +
     mode_toggles ops echo inps (loop ops echo inp s)"

text \<open>
  A repeat is pending only at a boundary angle that the last report carries, and never
  while the first-cycle flag is set.
\<close>

definition pending_inv :: "'f sketch \<Rightarrow> bool" where
  "pending_inv s \<longleftrightarrow>
     (firstCycle s \<longrightarrow> \<not> repeatBoundary s) \<and>
     (repeatBoundary s \<longrightarrow> at_boundary s \<and> sent s \<noteq> [] \<and> fst (last (sent s)) = ang s)"

text \<open>
  At the upper boundary the sweep heads forward, at the lower one backward once the
  first cycle is over, and the first-cycle flag is set only at the start angle.
\<close>

definition heading_inv :: "'f sketch \<Rightarrow> bool" where
  "heading_inv s \<longleftrightarrow>
     startAngle \<le> ang s \<and> ang s \<le> endAngle \<and> (direction s = 1 \<or> direction s = - 1) \<and>
     (firstCycle s \<longrightarrow> ang s = startAngle \<and> direction s = 1) \<and>
     (\<not> firstCycle s \<and> ang s = startAngle \<longrightarrow> direction s = - 1) \<and>
     (ang s = endAngle \<longrightarrow> direction s = 1)"

text \<open>
  The sweep from 30 to 150 in steps of 10, as a sequence: the angle of report number
  \<open>n\<close> (from 0), the direction after \<open>n\<close> steps, and whether a repeat is pending after
  \<open>n\<close> steps. The sequence has period 26.
\<close>

definition sweep_angle :: "nat \<Rightarrow> int" where
  "sweep_angle n =
     (let i = n mod 26 in if i < 13 then 30 + 10 * int i else 150 - 10 * (int i - 13))"

definition sweep_dir :: "nat \<Rightarrow> int" where
  "sweep_dir n = (if n = 0 \<or> (1 \<le> n mod 26 \<and> n mod 26 \<le> 13) then 1 else - 1)"

definition sweep_pending :: "nat \<Rightarrow> bool" where
  "sweep_pending n \<longleftrightarrow> n \<noteq> 0 \<and> (n mod 26 = 13 \<or> n mod 26 = 0)"

text \<open>The angle state of \<open>s\<close> is that of the sweep after \<open>n\<close> steps.\<close>

definition on_sweep :: "nat \<Rightarrow> 'f sketch \<Rightarrow> bool" where
  "on_sweep n s \<longleftrightarrow>
     ang s = sweep_angle n \<and> direction s = sweep_dir n \<and>
     repeatBoundary s = sweep_pending n \<and> firstCycle s = (n = 0)"

text \<open>
  At every pass of the run, when line 252 tests it, the stop flag is clear and the mode
  is the first one (step size 10).
\<close>

fun full_sweep_run ::
  "'f float_ops \<Rightarrow> (nat \<Rightarrow> 32 word) \<Rightarrow> tick_in list \<Rightarrow> 'f sketch \<Rightarrow> bool" where
  "full_sweep_run ops echo [] s = True"
| "full_sweep_run ops echo (inp # inps) s =
     (\<not> emergency_stop (poll_buttons inp s) \<and> currentMode (poll_buttons inp s) = 0 \<and>
      full_sweep_run ops echo inps (loop ops echo inp s))"

text \<open>\<open>n\<close> passes half a second apart, no button pressed.\<close>

definition steady :: "nat \<Rightarrow> tick_in list" where
  "steady n = map (\<lambda>k. tick LOW LOW (500 * Suc k)) [0..<n]"

text \<open>The reports so far and the angle state follow the sweep sequence.\<close>

definition tracks_sweep :: "'f sketch \<Rightarrow> bool" where
  "tracks_sweep s \<longleftrightarrow>
     on_sweep (length (sent s)) s \<and> map fst (sent s) = map sweep_angle [0..<length (sent s)]"

text \<open>The fields of a line: the pieces between its commas.\<close>

fun split_commas :: "string \<Rightarrow> string list" where
  "split_commas [] = [[]]"
| "split_commas (c # cs) =
     (if c = CHR '','' then [] # split_commas cs
      else (case split_commas cs of f # fs \<Rightarrow> (c # f) # fs | [] \<Rightarrow> [[c]]))"

section \<open>Properties\<close>

subsection \<open>Servo pulse width\<close>

lemma usFromAngle_in_range:
  "0 \<le> a \<Longrightarrow> a \<le> 180 \<Longrightarrow> usFromAngle a = 500 + (a * 2000) div 180"
  by (simp add: usFromAngle_def map_long_def constrain_def c_div_def)

lemma usFromAngle_below: "a < 0 \<Longrightarrow> usFromAngle a = 500"
  by (simp add: usFromAngle_def map_long_def constrain_def c_div_def)

lemma usFromAngle_above: "180 < a \<Longrightarrow> usFromAngle a = 2500"
  by (simp add: usFromAngle_def map_long_def constrain_def c_div_def)

lemma usFromAngle_mono: "a \<le> b \<Longrightarrow> usFromAngle a \<le> usFromAngle b"
proof -
  assume ab: "a \<le> b"
  have c: "0 \<le> constrain a 0 180" "constrain a 0 180 \<le> constrain b 0 180"
    "constrain b 0 180 \<le> 180"
    using ab by (auto simp: constrain_def)
  have "usFromAngle x = 500 + (constrain x 0 180 * 2000) div 180" for x
    by (simp add: usFromAngle_def map_long_def constrain_def c_div_def)
  moreover have "(constrain a 0 180 * 2000) div 180 \<le> (constrain b 0 180 * 2000) div 180"
    using c by (intro zdiv_mono1) auto
  ultimately show ?thesis by simp
qed

text \<open>
  Claim C4 as stated: for \<open>a\<close> in \<open>[0, 180]\<close> the pulse width is
  \<open>round (500 + a * (2000 / 180))\<close>. The sketch computes it with the integer division
  of \<^verbatim>\<open>map\<close>, which truncates: at 5 degrees \<open>500 + 10000 / 180\<close> is \<open>555.55\<dots>\<close>, the
  claim gives 556 and \<^verbatim>\<open>usFromAngle(5)\<close> is 555.
\<close>

theorem usFromAngle_round_counterexample:
  "usFromAngle 5 \<noteq> round (500 + real_of_int 5 * (2000 / 180))"
proof -
  have "round (500 + real_of_int 5 * (2000 / 180)) = (556 :: int)"
    unfolding round_def by simp
  moreover have "usFromAngle 5 = 555"
    by (simp add: usFromAngle_in_range)
  ultimately show ?thesis
    by simp
qed

text \<open>
  Claim C4, amended: for \<open>a\<close> in \<open>[0, 180]\<close> the pulse width is
  \<open>500 + a * (2000 / 180)\<close> rounded down, that is \<open>500 + (a * 2000) div 180\<close>; it is
  monotonic non-decreasing in the angle; an angle below 0 gives the pulse width of 0
  and an angle above 180 that of 180.
\<close>

theorem usFromAngle_floor:
  "(0 \<le> a \<and> a \<le> 180 \<longrightarrow>
      usFromAngle a = \<lfloor>500 + real_of_int a * (2000 / 180)\<rfloor> \<and>
      usFromAngle a = 500 + (a * 2000) div 180) \<and>
   (a \<le> b \<longrightarrow> usFromAngle a \<le> usFromAngle b) \<and>
   (a < 0 \<longrightarrow> usFromAngle a = usFromAngle 0) \<and>
   (180 < a \<longrightarrow> usFromAngle a = usFromAngle 180)"
proof -
  have fl: "usFromAngle a = \<lfloor>500 + real_of_int a * (2000 / 180)\<rfloor>"
    if a: "0 \<le> a" "a \<le> 180"
  proof -
    have "\<lfloor>500 + real_of_int a * (2000 / 180)\<rfloor> =
          500 + \<lfloor>real_of_int (a * 2000) / real_of_int 180\<rfloor>"
      by (simp add: algebra_simps)
    also have "\<dots> = 500 + (a * 2000) div 180"
      by (simp only: floor_divide_of_int_eq)
    finally show ?thesis
      using a by (simp add: usFromAngle_in_range)
  qed
  have lo: "usFromAngle 0 = 500" and hi: "usFromAngle 180 = 2500"
    by (simp_all add: usFromAngle_in_range)
  show ?thesis
    using fl usFromAngle_mono [of a b]
    by (simp add: usFromAngle_in_range usFromAngle_below usFromAngle_above lo hi)
qed

theorem usFromAngle_floor_witness:
  "usFromAngle 5 = 555 \<and> usFromAngle 90 = 1500 \<and> usFromAngle 5 \<le> usFromAngle 90 \<and>
   usFromAngle (- 20) = usFromAngle 0 \<and> usFromAngle 200 = usFromAngle 180"
  using usFromAngle_floor [of 5 90] usFromAngle_floor [of 90 90]
    usFromAngle_floor [of "- 20" 0] usFromAngle_floor [of 200 200]
  by simp

subsection \<open>One scan in closed form\<close>

lemma readDistanceCm_eq:
  "readDistanceCm ops echo s = (echo_cm ops (echo (triggers s)), sendTrig s)"
  by (simp add: readDistanceCm_def measureEcho_def)

lemma sendTrig_eq: "sendTrig s = triggered (Suc 0) s"
  by (simp add: sendTrig_def digitalWrite_def triggered_def Let_def)

lemma triggered_Suc: "triggered (Suc 0) (triggered n s) = triggered (Suc n) s"
  by (simp add: triggered_def)

lemma triggers_triggered: "triggers (triggered n s) = triggers s + n"
  by (simp add: triggered_def)

lemma readings_Suc:
  "readings ops echo t0 (Suc n) = readings ops echo t0 n @ [reading ops (echo (t0 + n))]"
  by (simp add: readings_def)

lemma length_readings: "length (readings ops echo t0 n) = n"
  by (simp add: readings_def)

lemma nth_readings: "i < n \<Longrightarrow> readings ops echo t0 n ! i = reading ops (echo (t0 + i))"
  by (simp add: readings_def)

lemma scan_sample_eq:
  "scan_sample ops echo i (out, sum0, cnt0, s) =
     (out[i := reading ops (echo (triggers s))],
      (if valid_sample ops (reading ops (echo (triggers s)))
       then fadd ops sum0 (reading ops (echo (triggers s))) else sum0),
      (if valid_sample ops (reading ops (echo (triggers s))) then cnt0 + 1 else cnt0),
      triggered (Suc 0) s)"
  by (simp add: scan_sample_def readDistanceCm_eq sendTrig_eq reading_def Let_def)

lemma scan_fold:
  "n \<le> length out0 \<Longrightarrow>
   fold (scan_sample ops echo) [0..<n] (out0, sum0, cnt0, s) =
     (readings ops echo (triggers s) n @ drop n out0,
      foldl (fadd ops) sum0 (filter (valid_sample ops) (readings ops echo (triggers s) n)),
      cnt0 + int (length (filter (valid_sample ops) (readings ops echo (triggers s) n))),
      triggered n s)"
proof (induction n)
  case 0
  then show ?case by (simp add: readings_def triggered_def)
next
  case (Suc n)
  then have n: "n < length out0"
    and IH: "fold (scan_sample ops echo) [0..<n] (out0, sum0, cnt0, s) =
     (readings ops echo (triggers s) n @ drop n out0,
      foldl (fadd ops) sum0 (filter (valid_sample ops) (readings ops echo (triggers s) n)),
      cnt0 + int (length (filter (valid_sample ops) (readings ops echo (triggers s) n))),
      triggered n s)"
    by simp_all
  have "fold (scan_sample ops echo) [0..<Suc n] (out0, sum0, cnt0, s) =
        scan_sample ops echo n (fold (scan_sample ops echo) [0..<n] (out0, sum0, cnt0, s))"
    by simp
  also have "\<dots> = scan_sample ops echo n (readings ops echo (triggers s) n @ drop n out0,
      foldl (fadd ops) sum0 (filter (valid_sample ops) (readings ops echo (triggers s) n)),
      cnt0 + int (length (filter (valid_sample ops) (readings ops echo (triggers s) n))),
      triggered n s)"
    by (simp only: IH)
  also have "\<dots> = (readings ops echo (triggers s) (Suc n) @ drop (Suc n) out0,
      foldl (fadd ops) sum0
        (filter (valid_sample ops) (readings ops echo (triggers s) (Suc n))),
      cnt0 + int (length (filter (valid_sample ops) (readings ops echo (triggers s) (Suc n)))),
      triggered (Suc n) s)"
    using n
    by (simp add: scan_sample_eq triggered_Suc triggers_triggered readings_Suc
        list_update_append length_readings Cons_nth_drop_Suc [symmetric]
        del: Cons_nth_drop_Suc)
  finally show ?case .
qed

lemma setServoAngle_eq:
  "setServoAngle angle_deg s =
     s\<lparr>pins := (pins s)(pinServo := LOW), servo_frames := servo_frames s @ [usFromAngle angle_deg]\<rparr>"
  by (simp add: setServoAngle_def servoPulse_def digitalWrite_def Let_def)

lemma scanAtAngle_eq:
  "scanAtAngle ops echo angle_deg s =
     (readings ops echo (triggers s) 10 @
        [mean_of ops (filter (valid_sample ops) (readings ops echo (triggers s) 10))],
      triggered 10 (setServoAngle angle_deg s))"
proof -
  have t: "triggers (setServoAngle angle_deg s) = triggers s"
    by (simp add: setServoAngle_eq)
  have "nat (if samplesPerAngle > 10 then 10 else samplesPerAngle) = 10"
    by (simp add: samplesPerAngle_def)
  then show ?thesis
    by (simp add: scanAtAngle_def scan_fold t list_update_append length_readings mean_of_def
        del: replicate.simps) simp
qed

lemma scanAtAngle_buf:
  "scanAtAngle ops echo a s =
     (scan_buf ops echo (triggers s), triggered 10 (setServoAngle a s))"
  by (simp add: scanAtAngle_eq scan_buf_def)

lemma length_scan_buf: "length (scan_buf ops echo t0) = 11"
  by (simp add: scan_buf_def length_readings)

subsection \<open>Sample aggregation\<close>

lemma nan_propagates_exact: "nan_propagates exact_ops"
  by (simp add: nan_propagates_def exact_ops_def split: option.splits)

lemma reading_timeout:
  "nan_propagates ops \<Longrightarrow> reading ops 0 = NAN ops \<and> \<not> valid_sample ops (reading ops 0)"
  by (simp add: nan_propagates_def reading_def echo_cm_def sensorCalibration_def valid_sample_def)

lemma upt_0_10: "[0..<10] = [0, 1, 2, 3, 4, 5, 6, 7, 8, 9 :: nat]"
  by code_simp

text \<open>
  A scan with exact arithmetic: eight timeouts, then two echoes of 2000 microseconds,
  34.3 cm as measured and 0.353203928 m once calibrated.
\<close>

lemma scan_example:
  "scan_buf exact_ops (\<lambda>k. if k < 8 then 0 else 2000) 0 =
     [None, None, None, None, None, None, None, None,
      Some (44150491 / 125000000), Some (44150491 / 125000000), Some (44150491 / 125000000)]"
proof -
  let ?v = "Some (44150491 / 125000000 :: rat)"
  have v: "reading exact_ops 2000 = ?v" and r0: "reading exact_ops 0 = None"
    by (simp_all add: reading_def sensorCalibration_def echo_cm_def exact_ops_def)
  have val: "valid_sample exact_ops ?v" "\<not> valid_sample exact_ops None"
    by (simp_all add: valid_sample_def exact_ops_def)
  have m: "mean_of exact_ops [?v, ?v] = ?v"
    by (simp add: mean_of_def exact_ops_def)
  show ?thesis
    by (simp add: scan_buf_def readings_def upt_0_10 v r0 val m)
qed

text \<open>
  Claim C5. One call of \<^verbatim>\<open>scanAtAngle\<close> takes exactly ten readings, one per trigger
  pulse, and stores each in its raw slot, whether it is valid or not: slot \<open>i\<close> holds
  the calibrated reading of pulse number \<open>i\<close> of the scan. Slot 10 holds the mean of
  the stored readings that are finite and strictly positive, their sum divided by
  their number, and NaN when there is none. No reading is taken again: the count of
  trigger pulses grows by ten whatever the readings are. With IEEE NaN arithmetic a
  timeout is stored as NaN in its slot and does not count as valid.
\<close>

theorem scanAtAngle_buffer:
  "scanAtAngle ops echo angle_deg s = (out, s') \<Longrightarrow>
   length out = 11 \<and>
   (\<forall>i<10. out ! i = sensorCalibration ops (echo_cm ops (echo (triggers s + i)))) \<and>
   out ! 10 = mean_of ops (filter (valid_sample ops) (take 10 out)) \<and>
   triggers s' = triggers s + 10 \<and>
   (nan_propagates ops \<longrightarrow>
      (\<forall>i<10. echo (triggers s + i) = 0 \<longrightarrow>
         out ! i = NAN ops \<and> \<not> valid_sample ops (out ! i)))"
proof -
  assume a: "scanAtAngle ops echo angle_deg s = (out, s')"
  let ?rs = "readings ops echo (triggers s) 10"
  from a have out: "out = ?rs @ [mean_of ops (filter (valid_sample ops) ?rs)]"
    and s': "s' = triggered 10 (setServoAngle angle_deg s)"
    by (simp_all add: scanAtAngle_eq)
  have len: "length out = 11"
    by (simp add: out length_readings)
  have slot: "out ! i = reading ops (echo (triggers s + i))" if "i < 10" for i
    using that by (simp add: out nth_append length_readings nth_readings)
  then have slots: "\<forall>i<10. out ! i = sensorCalibration ops (echo_cm ops (echo (triggers s + i)))"
    by (simp add: reading_def)
  have tk: "take 10 out = ?rs"
    by (simp add: out length_readings)
  have mean: "out ! 10 = mean_of ops (filter (valid_sample ops) (take 10 out))"
    by (simp add: tk) (simp add: out nth_append length_readings)
  have trg: "triggers s' = triggers s + 10"
    by (simp add: s' triggers_triggered setServoAngle_eq)
  have nan: "nan_propagates ops \<longrightarrow>
      (\<forall>i<10. echo (triggers s + i) = 0 \<longrightarrow>
         out ! i = NAN ops \<and> \<not> valid_sample ops (out ! i))"
    using reading_timeout [of ops] by (auto simp: slot)
  from len slots mean trg nan show ?thesis
    by blast
qed

theorem scanAtAngle_buffer_witness:
  "scanAtAngle exact_ops (\<lambda>k. if k < 8 then 0 else 2000) 30 (init :: rat option sketch) =
     ([None, None, None, None, None, None, None, None,
       Some (44150491 / 125000000), Some (44150491 / 125000000), Some (44150491 / 125000000)],
      triggered 10 (setServoAngle 30 init)) \<and>
   nan_propagates exact_ops \<and>
   NAN exact_ops = (None :: rat option) \<and>
   \<not> valid_sample exact_ops (None :: rat option) \<and>
   triggers (triggered 10 (setServoAngle 30 (init :: rat option sketch))) = 10"
proof -
  let ?echo = "\<lambda>k::nat. if k < 8 then 0 else (2000 :: 32 word)"
  let ?v = "Some (44150491 / 125000000 :: rat)"
  let ?out = "[None, None, None, None, None, None, None, None, ?v, ?v, ?v]"
  let ?s' = "triggered 10 (setServoAngle 30 (init :: rat option sketch))"
  have t0: "triggers (init :: rat option sketch) = 0"
    by (simp add: init_def)
  have val: "\<not> valid_sample exact_ops None"
    by (simp add: valid_sample_def exact_ops_def)
  have e: "scanAtAngle exact_ops ?echo 30 init = (?out, ?s')"
    using scan_example by (simp add: scanAtAngle_buf t0)
  have "\<forall>i<10. ?echo (triggers (init :: rat option sketch) + i) = 0 \<longrightarrow>
          ?out ! i = NAN exact_ops \<and> \<not> valid_sample exact_ops (?out ! i)"
    and "triggers ?s' = triggers (init :: rat option sketch) + 10"
    using scanAtAngle_buffer [OF e] nan_propagates_exact by blast+
  from this(1) [rule_format, of 0] this(2) show ?thesis
    using e nan_propagates_exact val by (simp add: t0)
qed

subsection \<open>Distance sensor\<close>

text \<open>
  Claim C6. For an echo of width \<open>t \<noteq> 0\<close> microseconds the sensor reads
  \<open>t * 0.0343 * 0.5\<close> centimetres, and the calibration maps a reading \<open>d\<close> to
  \<open>(1.049396 * d - 0.673890) / 100\<close>, the linear fit \<open>a * d + b\<close> with \<open>b = - 0.673890\<close>
  divided by 100 to give metres; both in float arithmetic, in the order the source
  evaluates them. For a timeout, \<open>t = 0\<close>, the sensor reads NaN, and with IEEE NaN
  arithmetic the calibrated value is NaN as well.
\<close>

theorem sensor_distance:
  "readDistanceCm ops echo s = (d_cm, s') \<Longrightarrow> t = echo (triggers s) \<Longrightarrow>
   (t \<noteq> 0 \<longrightarrow>
      d_cm = fmul ops (fmul ops (lit ops (of_nat (unat t))) (lit ops (343 / 10000)))
               (lit ops (1 / 2)) \<and>
      sensorCalibration ops d_cm =
        fdiv ops (fsub ops (fmul ops (lit ops (1049396 / 1000000)) d_cm)
                    (lit ops (673890 / 1000000))) (lit ops 100)) \<and>
   (t = 0 \<longrightarrow>
      d_cm = NAN ops \<and> (nan_propagates ops \<longrightarrow> sensorCalibration ops d_cm = NAN ops))"
  by (auto simp: readDistanceCm_eq echo_cm_def sensorCalibration_def nan_propagates_def)

theorem sensor_distance_witness:
  "readDistanceCm exact_ops (\<lambda>k. if k = 0 then 2000 else 0) (init :: rat option sketch) =
     (Some (343 / 10), sendTrig init) \<and>
   sensorCalibration exact_ops (Some (343 / 10)) = Some (44150491 / 125000000) \<and>
   readDistanceCm exact_ops (\<lambda>k. if k = 0 then 2000 else 0)
       (sendTrig (init :: rat option sketch)) =
     (None, sendTrig (sendTrig init)) \<and>
   nan_propagates exact_ops \<and>
   sensorCalibration exact_ops (None :: rat option) = None"
proof -
  let ?echo = "\<lambda>k::nat. if k = 0 then 2000 else (0 :: 32 word)"
  let ?i = "init :: rat option sketch"
  have t0: "triggers ?i = 0" "triggers (sendTrig ?i) = 1"
    by (simp_all add: init_def sendTrig_eq triggers_triggered)
  have a: "readDistanceCm exact_ops ?echo ?i = (Some (343 / 10), sendTrig ?i)"
    by (simp add: readDistanceCm_eq t0 echo_cm_def exact_ops_def)
  have b: "readDistanceCm exact_ops ?echo (sendTrig ?i) = (None, sendTrig (sendTrig ?i))"
    by (simp add: readDistanceCm_eq t0 echo_cm_def exact_ops_def)
  have "sensorCalibration exact_ops (Some (343 / 10)) = Some (44150491 / 125000000)"
    using sensor_distance [OF a, of 2000] by (simp add: t0 exact_ops_def)
  moreover have "sensorCalibration exact_ops (None :: rat option) = None"
    using sensor_distance [OF b, of 0] nan_propagates_exact by (simp add: t0 exact_ops_def)
  ultimately show ?thesis
    using a b nan_propagates_exact by simp
qed

subsection \<open>The passes of the loop in closed form\<close>

lemma stop_checkButton_eq:
  "stop_checkButton rd s =
     s\<lparr>stop_buttonstate := rd, stop_WasPressed := (rd = HIGH),
       emergency_stop := (if \<not> stop_WasPressed s \<and> rd = HIGH then \<not> emergency_stop s
                          else emergency_stop s)\<rparr>"
  by (cases rd) (simp_all add: stop_checkButton_def)

lemma mode_checkButton_eq:
  "mode_checkButton rd s =
     s\<lparr>mode_buttonstate := rd, mode_WasPressed := (rd = HIGH),
       currentMode := (if \<not> mode_WasPressed s \<and> rd = HIGH
                       then (if currentMode s = 0 then 1 else 0) else currentMode s)\<rparr>"
  by (cases rd) (simp_all add: mode_checkButton_def)

lemma poll_buttons_eq:
  "poll_buttons inp s =
     s\<lparr>stop_buttonstate := stop_read inp, stop_WasPressed := (stop_read inp = HIGH),
       emergency_stop := (if \<not> stop_WasPressed s \<and> stop_read inp = HIGH
                          then \<not> emergency_stop s else emergency_stop s),
       mode_buttonstate := mode_read inp, mode_WasPressed := (mode_read inp = HIGH),
       currentMode := (if \<not> mode_WasPressed s \<and> mode_read inp = HIGH
                       then (if currentMode s = 0 then 1 else 0) else currentMode s),
       incrementAngle :=
         (if (if \<not> mode_WasPressed s \<and> mode_read inp = HIGH
              then (if currentMode s = 0 then 1 else 0) else currentMode s) = 0
          then 10 else 20)\<rparr>"
  by (simp add: poll_buttons_def stop_checkButton_eq mode_checkButton_eq)

lemma loop_stopped:
  "emergency_stop (poll_buttons inp s) \<Longrightarrow>
   loop ops echo inp s =
     (poll_buttons inp s)\<lparr>pins := (pins s)(trig_pin := LOW, pinServo := LOW, ledRed := HIGH, ledGreen := LOW)\<rparr>"
  by (simp add: loop_def stop_all_def digitalWrite_def) (simp add: poll_buttons_eq)

lemma loop_idle:
  "\<not> emergency_stop (poll_buttons inp s) \<Longrightarrow>
   \<not> millis_check inp - lastStepTime s \<ge> stepInterval \<Longrightarrow>
   loop ops echo inp s =
     (poll_buttons inp s)\<lparr>pins := (pins s)(ledGreen := HIGH, ledRed := LOW)\<rparr>"
  by (simp add: loop_def digitalWrite_def) (simp add: poll_buttons_eq)

lemma loop_step:
  "takes_step inp s \<Longrightarrow>
   loop ops echo inp s =
     turn_or_advance ((poll_buttons inp s)
       \<lparr>lastStepTime := millis_stamp inp,
        servo_frames := servo_frames s @ [usFromAngle (ang s)],
        pins := (pins s)(ledGreen := HIGH, ledRed := LOW,
                  ledYellow := (if currentMode (poll_buttons inp s) \<noteq> 0 then HIGH else LOW),
                  ledBlue := (if currentMode (poll_buttons inp s) \<noteq> 0 then LOW else HIGH),
                  pinServo := LOW, trig_pin := LOW),
        triggers := triggers s + 10,
        sent := sent s @ [(ang s, scan_buf ops echo (triggers s), currentMode (poll_buttons inp s))]\<rparr>)"
  apply (simp add: takes_step_def loop_def digitalWrite_def sweep_step_def scanAtAngle_buf setServoAngle_eq triggered_def Let_def)
  apply (simp add: poll_buttons_eq)
  done

subsection \<open>What a pass leaves alone\<close>

lemma turn_or_advance_other:
  "sent (turn_or_advance s) = sent s"
  "emergency_stop (turn_or_advance s) = emergency_stop s"
  "currentMode (turn_or_advance s) = currentMode s"
  "incrementAngle (turn_or_advance s) = incrementAngle s"
  "stop_WasPressed (turn_or_advance s) = stop_WasPressed s"
  "mode_WasPressed (turn_or_advance s) = mode_WasPressed s"
  "stop_buttonstate (turn_or_advance s) = stop_buttonstate s"
  "mode_buttonstate (turn_or_advance s) = mode_buttonstate s"
  "lastStepTime (turn_or_advance s) = lastStepTime s"
  "pins (turn_or_advance s) = pins s"
  "triggers (turn_or_advance s) = triggers s"
  "servo_frames (turn_or_advance s) = servo_frames s"
  by (simp_all add: turn_or_advance_def advance_def Let_def)

lemma loop_cases:
  obtains (stopped) "emergency_stop (poll_buttons inp s)"
  | (idle) "\<not> emergency_stop (poll_buttons inp s)"
      "\<not> millis_check inp - lastStepTime s \<ge> stepInterval"
  | (step) "takes_step inp s"
  unfolding takes_step_def by blast

lemma loop_flags:
  "emergency_stop (loop ops echo inp s) = emergency_stop (poll_buttons inp s)"
  "currentMode (loop ops echo inp s) = currentMode (poll_buttons inp s)"
  "incrementAngle (loop ops echo inp s) = incrementAngle (poll_buttons inp s)"
  "stop_WasPressed (loop ops echo inp s) = (stop_read inp = HIGH)"
  "mode_WasPressed (loop ops echo inp s) = (mode_read inp = HIGH)"
  "stop_buttonstate (loop ops echo inp s) = stop_read inp"
  "mode_buttonstate (loop ops echo inp s) = mode_read inp"
  by (cases inp s rule: loop_cases;
      simp add: loop_stopped loop_idle loop_step turn_or_advance_other;
      simp add: poll_buttons_eq)+

lemma poll_buttons_flags:
  "emergency_stop (poll_buttons inp s) =
     (if \<not> stop_WasPressed s \<and> stop_read inp = HIGH then \<not> emergency_stop s
      else emergency_stop s)"
  "currentMode (poll_buttons inp s) =
     (if \<not> mode_WasPressed s \<and> mode_read inp = HIGH
      then (if currentMode s = 0 then 1 else 0) else currentMode s)"
  "incrementAngle (poll_buttons inp s) = (if currentMode (poll_buttons inp s) = 0 then 10 else 20)"
  by (simp_all add: poll_buttons_eq)

lemma poll_buttons_other:
  "ang (poll_buttons inp s) = ang s"
  "direction (poll_buttons inp s) = direction s"
  "repeatBoundary (poll_buttons inp s) = repeatBoundary s"
  "firstCycle (poll_buttons inp s) = firstCycle s"
  "sent (poll_buttons inp s) = sent s"
  "triggers (poll_buttons inp s) = triggers s"
  "servo_frames (poll_buttons inp s) = servo_frames s"
  "lastStepTime (poll_buttons inp s) = lastStepTime s"
  "pins (poll_buttons inp s) = pins s"
  by (simp_all add: poll_buttons_eq)

lemma loop_stopped_other:
  assumes "emergency_stop (poll_buttons inp s)"
  shows "ang (loop ops echo inp s) = ang s"
    "direction (loop ops echo inp s) = direction s"
    "repeatBoundary (loop ops echo inp s) = repeatBoundary s"
    "firstCycle (loop ops echo inp s) = firstCycle s"
    "sent (loop ops echo inp s) = sent s"
    "triggers (loop ops echo inp s) = triggers s"
    "servo_frames (loop ops echo inp s) = servo_frames s"
    "lastStepTime (loop ops echo inp s) = lastStepTime s"
    "pins (loop ops echo inp s) trig_pin = LOW"
    "pins (loop ops echo inp s) pinServo = LOW"
  using assms
  by (simp_all add: loop_stopped poll_buttons_other trig_pin_def pinServo_def ledRed_def
      ledGreen_def)

lemma loop_idle_other:
  assumes "\<not> emergency_stop (poll_buttons inp s)"
    "\<not> millis_check inp - lastStepTime s \<ge> stepInterval"
  shows "ang (loop ops echo inp s) = ang s"
    "direction (loop ops echo inp s) = direction s"
    "repeatBoundary (loop ops echo inp s) = repeatBoundary s"
    "firstCycle (loop ops echo inp s) = firstCycle s"
    "sent (loop ops echo inp s) = sent s"
    "triggers (loop ops echo inp s) = triggers s"
    "servo_frames (loop ops echo inp s) = servo_frames s"
    "lastStepTime (loop ops echo inp s) = lastStepTime s"
  using assms by (simp_all add: loop_idle poll_buttons_other)

lemma loop_step_other:
  assumes "takes_step inp s"
  shows "sent (loop ops echo inp s) =
           sent s @ [(ang s, scan_buf ops echo (triggers s), currentMode (poll_buttons inp s))]"
    "triggers (loop ops echo inp s) = triggers s + 10"
    "servo_frames (loop ops echo inp s) = servo_frames s @ [usFromAngle (ang s)]"
    "lastStepTime (loop ops echo inp s) = millis_stamp inp"
  using assms by (simp_all add: loop_step turn_or_advance_other)

subsection \<open>Emergency stop\<close>

lemma stopped_run_frame:
  "stopped_run ops echo inps s \<Longrightarrow>
   sent (run ops echo inps s) = sent s \<and>
   ang (run ops echo inps s) = ang s \<and>
   direction (run ops echo inps s) = direction s \<and>
   repeatBoundary (run ops echo inps s) = repeatBoundary s \<and>
   firstCycle (run ops echo inps s) = firstCycle s \<and>
   triggers (run ops echo inps s) = triggers s \<and>
   servo_frames (run ops echo inps s) = servo_frames s \<and>
   lastStepTime (run ops echo inps s) = lastStepTime s"
proof (induction inps arbitrary: s)
  case Nil
  then show ?case by simp
next
  case (Cons inp inps)
  then have st: "emergency_stop (poll_buttons inp s)"
    and rest: "stopped_run ops echo inps (loop ops echo inp s)"
    by simp_all
  show ?case
    using Cons.IH [OF rest] by (simp add: loop_stopped_other [OF st])
qed

lemma stopped_run_pins:
  "stopped_run ops echo inps s \<Longrightarrow> inps \<noteq> [] \<Longrightarrow>
   pins (run ops echo inps s) trig_pin = LOW \<and> pins (run ops echo inps s) pinServo = LOW"
proof (induction inps arbitrary: s)
  case Nil
  then show ?case by simp
next
  case (Cons inp inps)
  then have st: "emergency_stop (poll_buttons inp s)"
    and rest: "stopped_run ops echo inps (loop ops echo inp s)"
    by simp_all
  show ?case
  proof (cases inps)
    case Nil
    then show ?thesis by (simp add: loop_stopped_other [OF st])
  next
    case (Cons a list)
    then show ?thesis using Cons.IH [OF rest] by simp
  qed
qed

lemma turn_or_advance_cong:
  "ang a = ang b \<Longrightarrow> direction a = direction b \<Longrightarrow> repeatBoundary a = repeatBoundary b \<Longrightarrow>
   firstCycle a = firstCycle b \<Longrightarrow> incrementAngle a = incrementAngle b \<Longrightarrow>
   ang (turn_or_advance a) = ang (turn_or_advance b) \<and>
   direction (turn_or_advance a) = direction (turn_or_advance b) \<and>
   repeatBoundary (turn_or_advance a) = repeatBoundary (turn_or_advance b) \<and>
   firstCycle (turn_or_advance a) = firstCycle (turn_or_advance b)"
  by (simp add: turn_or_advance_def advance_def Let_def)

lemma loop_step_angle:
  assumes "takes_step inp s"
    and "ang s = ang b" "direction s = direction b" "repeatBoundary s = repeatBoundary b"
      "firstCycle s = firstCycle b" "incrementAngle (poll_buttons inp s) = incrementAngle b"
  shows "ang (loop ops echo inp s) = ang (turn_or_advance b) \<and>
   direction (loop ops echo inp s) = direction (turn_or_advance b) \<and>
   repeatBoundary (loop ops echo inp s) = repeatBoundary (turn_or_advance b) \<and>
   firstCycle (loop ops echo inp s) = firstCycle (turn_or_advance b)"
  unfolding loop_step [OF assms(1)]
  by (rule turn_or_advance_cong) (simp_all add: assms(2-) poll_buttons_other)

text \<open>
  Claim C2. While the stop flag is set at every pass of a run, however long, no report
  is sent and the angle, the direction and the two boundary flags stay as they were
  (no trigger pulse and no servo frame is sent either); after each such pass the
  trigger pin and the servo pin are low. The first pass after the flag is cleared that
  takes a step reports the angle the sweep had when it was stopped, and moves on as
  the sweep would have from the state it was stopped in, with the step size of the
  mode then selected.
\<close>

theorem emergency_stop_gating:
  "stopped_run ops echo inps s \<Longrightarrow>
   sent (run ops echo inps s) = sent s \<and>
   ang (run ops echo inps s) = ang s \<and>
   direction (run ops echo inps s) = direction s \<and>
   repeatBoundary (run ops echo inps s) = repeatBoundary s \<and>
   firstCycle (run ops echo inps s) = firstCycle s \<and>
   triggers (run ops echo inps s) = triggers s \<and>
   servo_frames (run ops echo inps s) = servo_frames s \<and>
   (inps \<noteq> [] \<longrightarrow>
      pins (run ops echo inps s) trig_pin = LOW \<and> pins (run ops echo inps s) pinServo = LOW) \<and>
   (takes_step inp (run ops echo inps s) \<longrightarrow>
      (let s' = loop ops echo inp (run ops echo inps s);
           r = turn_or_advance (s\<lparr>incrementAngle := incrementAngle s'\<rparr>)
       in sent s' = sent s @ [(ang s, scan_buf ops echo (triggers s), currentMode s')] \<and>
          ang s' = ang r \<and> direction s' = direction r \<and>
          repeatBoundary s' = repeatBoundary r \<and> firstCycle s' = firstCycle r))"
proof -
  assume a: "stopped_run ops echo inps s"
  let ?s' = "run ops echo inps s"
  note fr = stopped_run_frame [OF a]
  have resume: "ang (loop ops echo inp ?s') = ang (turn_or_advance (s\<lparr>incrementAngle := incrementAngle (loop ops echo inp ?s')\<rparr>)) \<and>
     direction (loop ops echo inp ?s') = direction (turn_or_advance (s\<lparr>incrementAngle := incrementAngle (loop ops echo inp ?s')\<rparr>)) \<and>
     repeatBoundary (loop ops echo inp ?s') = repeatBoundary (turn_or_advance (s\<lparr>incrementAngle := incrementAngle (loop ops echo inp ?s')\<rparr>)) \<and>
     firstCycle (loop ops echo inp ?s') = firstCycle (turn_or_advance (s\<lparr>incrementAngle := incrementAngle (loop ops echo inp ?s')\<rparr>))"
    if "takes_step inp ?s'"
    by (rule loop_step_angle [OF that]) (simp_all add: fr loop_flags)
  show ?thesis
    using fr stopped_run_pins [OF a] resume by (simp add: loop_step_other loop_flags Let_def)
qed

lemma tick_simps:
  "stop_read (tick st md ms) = st" "mode_read (tick st md ms) = md"
  "millis_check (tick st md ms) = of_nat ms" "millis_stamp (tick st md ms) = of_nat ms"
  by (simp_all add: tick_def)

lemma init_simps:
  "incrementAngle init = 10" "\<not> emergency_stop init" "currentMode init = 0"
  "\<not> stop_WasPressed init" "\<not> mode_WasPressed init" "lastStepTime init = 0"
  "ang init = startAngle" "direction init = 1" "\<not> repeatBoundary init" "firstCycle init"
  "triggers init = 0" "servo_frames init = []" "sent init = []"
  by (simp_all add: init_def)

theorem emergency_stop_gating_witness:
  "stopped_run exact_ops (\<lambda>k. 1000) [tick HIGH LOW 1000, tick HIGH LOW 2000, tick LOW LOW 3000] init \<and>
   takes_step (tick HIGH LOW 4000)
     (run exact_ops (\<lambda>k. 1000) [tick HIGH LOW 1000, tick HIGH LOW 2000, tick LOW LOW 3000] init) \<and>
   sent (run exact_ops (\<lambda>k. 1000) [tick HIGH LOW 1000, tick HIGH LOW 2000, tick LOW LOW 3000] init) = [] \<and>
   ang (run exact_ops (\<lambda>k. 1000) [tick HIGH LOW 1000, tick HIGH LOW 2000, tick LOW LOW 3000] init) = 30 \<and>
   pins (run exact_ops (\<lambda>k. 1000) [tick HIGH LOW 1000, tick HIGH LOW 2000, tick LOW LOW 3000] init)
     trig_pin = LOW \<and>
   pins (run exact_ops (\<lambda>k. 1000) [tick HIGH LOW 1000, tick HIGH LOW 2000, tick LOW LOW 3000] init)
     pinServo = LOW \<and>
   sent (loop exact_ops (\<lambda>k. 1000) (tick HIGH LOW 4000)
     (run exact_ops (\<lambda>k. 1000) [tick HIGH LOW 1000, tick HIGH LOW 2000, tick LOW LOW 3000] init)) =
     [(30, scan_buf exact_ops (\<lambda>k. 1000) 0, 0)] \<and>
   ang (loop exact_ops (\<lambda>k. 1000) (tick HIGH LOW 4000)
     (run exact_ops (\<lambda>k. 1000) [tick HIGH LOW 1000, tick HIGH LOW 2000, tick LOW LOW 3000] init)) = 40"
proof -
  let ?inps = "[tick HIGH LOW 1000, tick HIGH LOW 2000, tick LOW LOW 3000]"
  let ?i = "init :: rat option sketch"
  let ?s' = "run exact_ops (\<lambda>k. 1000) ?inps ?i"
  have st: "stopped_run exact_ops (\<lambda>k. 1000) ?inps ?i"
    by (simp add: poll_buttons_flags loop_flags tick_simps init_simps)
  have fl: "\<not> emergency_stop (poll_buttons (tick HIGH LOW 4000) ?s')"
    "incrementAngle (poll_buttons (tick HIGH LOW 4000) ?s') = 10"
    "currentMode (poll_buttons (tick HIGH LOW 4000) ?s') = 0"
    by (simp_all add: poll_buttons_flags loop_flags tick_simps init_simps)
  have ts: "takes_step (tick HIGH LOW 4000) ?s'"
    using stopped_run_frame [OF st] fl by (simp add: takes_step_def tick_simps init_simps stepInterval_def)
  have adv: "ang (turn_or_advance (?i\<lparr>incrementAngle := 10\<rparr>)) = 40"
    by (simp add: turn_or_advance_def advance_def init_def startAngle_def endAngle_def)
  show ?thesis
    using emergency_stop_gating [OF st, of "tick HIGH LOW 4000"] st ts fl adv
    by (simp add: Let_def init_simps loop_flags startAngle_def)
qed

subsection \<open>Button presses\<close>

lemma latch_level_eq: "latch_level (x = HIGH) = x"
  by (cases x) (simp_all add: latch_level_def)

lemma stop_toggles_eq:
  "stop_toggles ops echo inps s =
     rising_edges (latch_level (stop_WasPressed s)) (map stop_read inps)"
proof (induction inps arbitrary: s)
  case Nil
  show ?case by simp
next
  case (Cons inp inps)
  show ?case
    by (simp add: Cons.IH loop_flags poll_buttons_flags latch_level_eq)
       (simp add: latch_level_def)
qed

lemma mode_toggles_eq:
  "mode_toggles ops echo inps s =
     rising_edges (latch_level (mode_WasPressed s)) (map mode_read inps)"
proof (induction inps arbitrary: s)
  case Nil
  show ?case by simp
next
  case (Cons inp inps)
  show ?case
    by (simp add: Cons.IH loop_flags poll_buttons_flags latch_level_eq)
       (simp add: latch_level_def)
qed

text \<open>
  Claim C7. In a pass of the loop the stop flag changes exactly when the stop button
  reads HIGH and its latch is clear, and the latch is then set as long as the button
  reads HIGH: after a pass the latch is set exactly when the button read HIGH. So
  from one pass to the next the flag changes exactly when the button read LOW in the
  first and HIGH in the second, and over any run the number of changes of the flag is
  the number of LOW-to-HIGH transitions of the readings (the latch standing for the
  reading before the run). The same holds for the mode button and the mode.
\<close>

theorem button_toggles:
  "(emergency_stop (loop ops echo inp s) \<noteq> emergency_stop s \<longleftrightarrow>
      \<not> stop_WasPressed s \<and> stop_read inp = HIGH) \<and>
   (currentMode (loop ops echo inp s) \<noteq> currentMode s \<longleftrightarrow>
      \<not> mode_WasPressed s \<and> mode_read inp = HIGH) \<and>
   stop_WasPressed (loop ops echo inp s) = (stop_read inp = HIGH) \<and>
   mode_WasPressed (loop ops echo inp s) = (mode_read inp = HIGH) \<and>
   (emergency_stop (loop ops echo inp2 (loop ops echo inp s)) \<noteq> emergency_stop (loop ops echo inp s)
      \<longleftrightarrow> stop_read inp = LOW \<and> stop_read inp2 = HIGH) \<and>
   (currentMode (loop ops echo inp2 (loop ops echo inp s)) \<noteq> currentMode (loop ops echo inp s)
      \<longleftrightarrow> mode_read inp = LOW \<and> mode_read inp2 = HIGH) \<and>
   stop_toggles ops echo inps s =
     rising_edges (latch_level (stop_WasPressed s)) (map stop_read inps) \<and>
   mode_toggles ops echo inps s =
     rising_edges (latch_level (mode_WasPressed s)) (map mode_read inps)"
proof -
  have lv: "x \<noteq> HIGH \<longleftrightarrow> x = LOW" for x :: level
    by (cases x) simp_all
  show ?thesis
    by (simp add: stop_toggles_eq mode_toggles_eq loop_flags poll_buttons_flags lv)
qed

theorem button_toggles_witness:
  "stop_toggles exact_ops (\<lambda>k. 1000)
     [tick HIGH LOW 10, tick HIGH HIGH 20, tick HIGH HIGH 30, tick LOW LOW 40, tick HIGH LOW 50]
     init = 2 \<and>
   mode_toggles exact_ops (\<lambda>k. 1000)
     [tick HIGH LOW 10, tick HIGH HIGH 20, tick HIGH HIGH 30, tick LOW LOW 40, tick HIGH LOW 50]
     init = 1"
  using button_toggles [of exact_ops "\<lambda>k. 1000" "tick LOW LOW 0" init "tick LOW LOW 0"
      "[tick HIGH LOW 10, tick HIGH HIGH 20, tick HIGH HIGH 30, tick LOW LOW 40, tick HIGH LOW 50]"]
  by (simp add: tick_simps init_simps latch_level_def)

subsection \<open>The angle stays in the sweep range\<close>

lemma advance_range: "startAngle \<le> ang (advance s) \<and> ang (advance s) \<le> endAngle"
  by (simp add: advance_def Let_def startAngle_def endAngle_def)

lemma advance_direction: "direction (advance s) = direction s"
  by (simp add: advance_def Let_def)

lemma sweep_inv_turn_or_advance: "sweep_inv s \<Longrightarrow> sweep_inv (turn_or_advance s)"
  using advance_range
  by (auto simp: sweep_inv_def turn_or_advance_def advance_direction)

lemma sweep_inv_loop: "sweep_inv s \<Longrightarrow> sweep_inv (loop ops echo inp s)"
proof (cases inp s rule: loop_cases)
  case stopped
  assume "sweep_inv s"
  then show ?thesis
    by (simp add: sweep_inv_def loop_stopped_other [OF stopped])
next
  case idle
  assume "sweep_inv s"
  then show ?thesis
    by (simp add: sweep_inv_def loop_idle_other [OF idle])
next
  case step
  assume "sweep_inv s"
  then show ?thesis
    unfolding loop_step [OF step]
    by (intro sweep_inv_turn_or_advance) (simp add: sweep_inv_def poll_buttons_other)
qed

lemma sweep_inv_run: "sweep_inv s \<Longrightarrow> sweep_inv (run ops echo inps s)"
  by (induction inps arbitrary: s) (simp_all add: sweep_inv_loop)

lemma sweep_inv_init: "sweep_inv init"
  by (simp add: sweep_inv_def init_def startAngle_def endAngle_def)

text \<open>
  The sum of line 282 fits the 16 bits of an \<^verbatim>\<open>int\<close>: the step size is 10 or 20 in
  every state \<^verbatim>\<open>advance\<close> is applied to.
\<close>

lemma advance_no_overflow:
  "sweep_inv s \<Longrightarrow> incrementAngle s = 10 \<or> incrementAngle s = 20 \<Longrightarrow>
   - 32768 \<le> ang s + direction s * incrementAngle s \<and>
   ang s + direction s * incrementAngle s \<le> 32767"
  by (auto simp: sweep_inv_def startAngle_def endAngle_def)

text \<open>
  Claim C9. In the state after \<^verbatim>\<open>setup()\<close> the angle is in \<open>[startAngle, endAngle]\<close>
  and the direction is 1 or -1; every pass of the loop keeps it so, whatever the
  buttons read, and so it holds after every run. The angle \<^verbatim>\<open>advance\<close> leaves is
  in the range whatever the step size was.
\<close>

theorem angle_in_range:
  "sweep_inv (init :: 'f sketch) \<and>
   (sweep_inv s \<longrightarrow> sweep_inv (loop ops echo inp s)) \<and>
   sweep_inv (run ops echo inps init) \<and>
   startAngle \<le> ang (advance s) \<and> ang (advance s) \<le> endAngle"
  using sweep_inv_init sweep_inv_loop sweep_inv_run [OF sweep_inv_init] advance_range
  by blast

theorem angle_in_range_witness:
  "sweep_inv (init\<lparr>ang := 140, firstCycle := False\<rparr> :: rat option sketch) \<and>
   sweep_inv (loop exact_ops (\<lambda>k. 1000) (tick LOW HIGH 1000)
     (init\<lparr>ang := 140, firstCycle := False\<rparr>)) \<and>
   incrementAngle (loop exact_ops (\<lambda>k. 1000) (tick LOW HIGH 1000)
     (init\<lparr>ang := 140, firstCycle := False\<rparr> :: rat option sketch)) = 20 \<and>
   ang (loop exact_ops (\<lambda>k. 1000) (tick LOW HIGH 1000)
     (init\<lparr>ang := 140, firstCycle := False\<rparr> :: rat option sketch)) = 150"
proof -
  let ?s = "init\<lparr>ang := 140, firstCycle := False\<rparr> :: rat option sketch"
  let ?inp = "tick LOW HIGH 1000"
  have inv: "sweep_inv ?s"
    by (simp add: sweep_inv_def init_def startAngle_def endAngle_def)
  have pb: "\<not> emergency_stop (poll_buttons ?inp ?s)" "incrementAngle (poll_buttons ?inp ?s) = 20"
    by (simp_all add: poll_buttons_flags tick_simps init_def)
  have ts: "takes_step ?inp ?s"
    using pb by (simp add: takes_step_def tick_simps init_def stepInterval_def)
  have "ang (loop exact_ops (\<lambda>k. 1000) ?inp ?s) = ang (turn_or_advance (?s\<lparr>incrementAngle := 20\<rparr>))"
    using loop_step_angle [OF ts, of "?s\<lparr>incrementAngle := 20\<rparr>"] pb by simp
  also have "\<dots> = 150"
    by (simp add: turn_or_advance_def advance_def init_def startAngle_def endAngle_def)
  finally have a150: "ang (loop exact_ops (\<lambda>k. 1000) ?inp ?s) = 150" .
  have "sweep_inv (loop exact_ops (\<lambda>k. 1000) ?inp ?s)"
    using angle_in_range [of ?s exact_ops "\<lambda>k. 1000" ?inp "[]"] inv by blast
  then show ?thesis
    using a150 inv pb by (simp add: loop_flags)
qed

subsection \<open>The mode button during a stop\<close>

text \<open>
  Claim C10. In a pass in which the stop flag is set, both buttons are still read, the
  mode changes exactly as in any other pass (on a reading HIGH with the latch clear)
  and the step size follows it, while the angle, the direction and the two boundary
  flags stay as they are. So a sweep can resume with another step size: from the
  state after \<^verbatim>\<open>setup()\<close>, where the step size is 10, there is a stop during which the
  mode button is pressed, after which the first step moves the angle by 20.
\<close>

theorem mode_switch_while_stopped:
  "(emergency_stop (poll_buttons inp s) \<longrightarrow>
      (let s' = loop (ops :: 'f float_ops) echo inp s
       in stop_buttonstate s' = stop_read inp \<and> mode_buttonstate s' = mode_read inp \<and>
          currentMode s' =
            (if \<not> mode_WasPressed s \<and> mode_read inp = HIGH
             then (if currentMode s = 0 then 1 else 0) else currentMode s) \<and>
          incrementAngle s' = (if currentMode s' = 0 then 10 else 20) \<and>
          ang s' = ang s \<and> direction s' = direction s \<and>
          repeatBoundary s' = repeatBoundary s \<and> firstCycle s' = firstCycle s \<and>
          sent s' = sent s)) \<and>
   (\<exists>inps inp'. stopped_run ops echo inps init \<and> takes_step inp' (run ops echo inps init) \<and>
      incrementAngle (init :: 'f sketch) = 10 \<and>
      ang (loop ops echo inp' (run ops echo inps init)) = ang (init :: 'f sketch) + 20)"
proof -
  let ?inps = "[tick HIGH LOW 1000, tick LOW HIGH 2000]"
  let ?inp' = "tick HIGH LOW 3000"
  let ?i = "init :: 'f sketch"
  let ?s' = "run ops echo ?inps ?i"
  have st: "stopped_run ops echo ?inps ?i"
    by (simp add: poll_buttons_flags loop_flags tick_simps init_simps)
  have pb: "\<not> emergency_stop (poll_buttons ?inp' ?s')"
    "incrementAngle (poll_buttons ?inp' ?s') = 20"
    by (simp_all add: poll_buttons_flags loop_flags tick_simps init_simps)
  note fr = stopped_run_frame [OF st]
  have ts: "takes_step ?inp' ?s'"
    using fr pb by (simp add: takes_step_def tick_simps init_simps stepInterval_def)
  have "ang (loop ops echo ?inp' ?s') = ang (turn_or_advance (?i\<lparr>incrementAngle := 20\<rparr>))"
    using loop_step_angle [OF ts, of "?i\<lparr>incrementAngle := 20\<rparr>"] pb fr by simp
  also have "\<dots> = ang ?i + 20"
    by (simp add: turn_or_advance_def advance_def init_def startAngle_def endAngle_def)
  finally have resume: "\<exists>inps inp'. stopped_run ops echo inps ?i \<and>
      takes_step inp' (run ops echo inps ?i) \<and> incrementAngle ?i = 10 \<and>
      ang (loop ops echo inp' (run ops echo inps ?i)) = ang ?i + 20"
    using st ts by (intro exI [of _ ?inps] exI [of _ ?inp']) (simp add: init_simps)
  have "emergency_stop (poll_buttons inp s) \<longrightarrow>
      (let s' = loop ops echo inp s
       in stop_buttonstate s' = stop_read inp \<and> mode_buttonstate s' = mode_read inp \<and>
          currentMode s' =
            (if \<not> mode_WasPressed s \<and> mode_read inp = HIGH
             then (if currentMode s = 0 then 1 else 0) else currentMode s) \<and>
          incrementAngle s' = (if currentMode s' = 0 then 10 else 20) \<and>
          ang s' = ang s \<and> direction s' = direction s \<and>
          repeatBoundary s' = repeatBoundary s \<and> firstCycle s' = firstCycle s \<and>
          sent s' = sent s)"
    by (simp add: Let_def loop_flags poll_buttons_flags loop_stopped_other)
  with resume show ?thesis
    by blast
qed

theorem mode_switch_while_stopped_witness:
  "emergency_stop (poll_buttons (tick LOW HIGH 2000)
     (loop exact_ops (\<lambda>k. 1000) (tick HIGH LOW 1000) init)) \<and>
   currentMode (loop exact_ops (\<lambda>k. 1000) (tick HIGH LOW 1000) init) = 0 \<and>
   currentMode (loop exact_ops (\<lambda>k. 1000) (tick LOW HIGH 2000)
     (loop exact_ops (\<lambda>k. 1000) (tick HIGH LOW 1000) init)) = 1 \<and>
   incrementAngle (loop exact_ops (\<lambda>k. 1000) (tick LOW HIGH 2000)
     (loop exact_ops (\<lambda>k. 1000) (tick HIGH LOW 1000) init)) = 20 \<and>
   ang (loop exact_ops (\<lambda>k. 1000) (tick LOW HIGH 2000)
     (loop exact_ops (\<lambda>k. 1000) (tick HIGH LOW 1000) init)) = 30"
proof -
  let ?s = "loop exact_ops (\<lambda>k. 1000) (tick HIGH LOW 1000) (init :: rat option sketch)"
  let ?inp = "tick LOW HIGH 2000"
  have st0: "emergency_stop (poll_buttons (tick HIGH LOW 1000) (init :: rat option sketch))"
    by (simp add: poll_buttons_flags tick_simps init_simps)
  have st: "emergency_stop (poll_buttons ?inp ?s)"
    by (simp add: poll_buttons_flags loop_flags tick_simps init_simps)
  have s: "currentMode ?s = 0" "\<not> mode_WasPressed ?s" "ang ?s = 30"
    by (simp_all add: poll_buttons_flags loop_flags tick_simps init_simps
        loop_stopped_other [OF st0] startAngle_def)
  show ?thesis
    using mode_switch_while_stopped [of ?inp ?s exact_ops "\<lambda>k. 1000"] st s
    by (auto simp: Let_def tick_simps)
qed

subsection \<open>Turning at a boundary\<close>

lemma advance_ang:
  "ang (advance s) = min endAngle (max startAngle (ang s + direction s * incrementAngle s))"
  by (simp add: advance_def Let_def startAngle_def endAngle_def)

lemma advance_flags:
  "direction (advance s) = direction s" "repeatBoundary (advance s) = repeatBoundary s"
  "firstCycle (advance s) = firstCycle s"
  by (simp_all add: advance_def Let_def)

lemma turn_or_advance_angle:
  "ang (turn_or_advance s) =
     (if at_boundary s \<and> \<not> firstCycle s
      then (if repeatBoundary s
            then min endAngle (max startAngle (ang s - direction s * incrementAngle s))
            else ang s)
      else min endAngle (max startAngle (ang s + direction s * incrementAngle s)))"
  "direction (turn_or_advance s) =
     (if at_boundary s \<and> \<not> firstCycle s \<and> repeatBoundary s then - direction s
      else direction s)"
  "repeatBoundary (turn_or_advance s) =
     (if at_boundary s \<and> \<not> firstCycle s then \<not> repeatBoundary s else repeatBoundary s)"
  "firstCycle (turn_or_advance s) = (if at_boundary s then False else firstCycle s)"
  by (simp_all add: turn_or_advance_def at_boundary_def advance_ang advance_flags)

lemma loop_step_angle_eq:
  assumes "takes_step inp s"
  shows "ang (loop ops echo inp s) =
     (if at_boundary s \<and> \<not> firstCycle s
      then (if repeatBoundary s
            then min endAngle (max startAngle
                   (ang s - direction s * incrementAngle (loop ops echo inp s)))
            else ang s)
      else min endAngle (max startAngle
             (ang s + direction s * incrementAngle (loop ops echo inp s))))"
    "direction (loop ops echo inp s) =
     (if at_boundary s \<and> \<not> firstCycle s \<and> repeatBoundary s then - direction s
      else direction s)"
    "repeatBoundary (loop ops echo inp s) =
     (if at_boundary s \<and> \<not> firstCycle s then \<not> repeatBoundary s else repeatBoundary s)"
    "firstCycle (loop ops echo inp s) = (if at_boundary s then False else firstCycle s)"
proof -
  let ?b = "s\<lparr>incrementAngle := incrementAngle (poll_buttons inp s)\<rparr>"
  have b: "at_boundary ?b = at_boundary s"
    by (simp add: at_boundary_def)
  note e = loop_step_angle [OF assms, of ?b ops echo, simplified]
  show "ang (loop ops echo inp s) =
     (if at_boundary s \<and> \<not> firstCycle s
      then (if repeatBoundary s
            then min endAngle (max startAngle
                   (ang s - direction s * incrementAngle (loop ops echo inp s)))
            else ang s)
      else min endAngle (max startAngle
             (ang s + direction s * incrementAngle (loop ops echo inp s))))"
    using e by (simp add: turn_or_advance_angle b loop_flags)
  show "direction (loop ops echo inp s) =
     (if at_boundary s \<and> \<not> firstCycle s \<and> repeatBoundary s then - direction s
      else direction s)"
    using e by (simp add: turn_or_advance_angle b)
  show "repeatBoundary (loop ops echo inp s) =
     (if at_boundary s \<and> \<not> firstCycle s then \<not> repeatBoundary s else repeatBoundary s)"
    using e by (simp add: turn_or_advance_angle b)
  show "firstCycle (loop ops echo inp s) = (if at_boundary s then False else firstCycle s)"
    using e by (simp add: turn_or_advance_angle b)
qed

lemma direction_changes:
  assumes "direction (loop ops echo inp s) \<noteq> direction s"
  shows "takes_step inp s \<and> at_boundary s \<and> \<not> firstCycle s \<and> repeatBoundary s"
proof (cases inp s rule: loop_cases)
  case stopped
  with assms show ?thesis by (simp add: loop_stopped_other)
next
  case idle
  with assms show ?thesis by (simp add: loop_idle_other)
next
  case step
  with assms show ?thesis by (simp add: loop_step_angle_eq split: if_splits)
qed

lemma pending_inv_loop: "pending_inv s \<Longrightarrow> pending_inv (loop ops echo inp s)"
proof (cases inp s rule: loop_cases)
  case stopped
  assume "pending_inv s"
  then show ?thesis
    by (simp add: pending_inv_def at_boundary_def loop_stopped_other [OF stopped])
next
  case idle
  assume "pending_inv s"
  then show ?thesis
    by (simp add: pending_inv_def at_boundary_def loop_idle_other [OF idle])
next
  case step
  assume inv: "pending_inv s"
  note st = loop_step_angle_eq [OF step, of ops echo]
  have snt: "sent (loop ops echo inp s) \<noteq> []" "fst (last (sent (loop ops echo inp s))) = ang s"
    by (simp_all add: loop_step_other [OF step])
  consider (pend) "at_boundary s" "\<not> firstCycle s" "\<not> repeatBoundary s"
    | (rev) "at_boundary s" "\<not> firstCycle s" "repeatBoundary s"
    | (first) "at_boundary s" "firstCycle s" "\<not> repeatBoundary s"
    | (inner) "\<not> at_boundary s" "\<not> repeatBoundary s"
    using inv unfolding pending_inv_def by blast
  then show ?thesis
  proof cases
    case pend
    then have "ang (loop ops echo inp s) = ang s" "\<not> firstCycle (loop ops echo inp s)"
      by (simp_all add: st)
    then show ?thesis
      using pend snt by (simp add: pending_inv_def at_boundary_def)
  next
    case rev
    then have "\<not> repeatBoundary (loop ops echo inp s)" "\<not> firstCycle (loop ops echo inp s)"
      by (simp_all add: st)
    then show ?thesis by (simp add: pending_inv_def)
  next
    case first
    then have "\<not> repeatBoundary (loop ops echo inp s)" "\<not> firstCycle (loop ops echo inp s)"
      by (simp_all add: st)
    then show ?thesis by (simp add: pending_inv_def)
  next
    case inner
    then have "\<not> repeatBoundary (loop ops echo inp s)"
      by (simp add: st)
    then show ?thesis by (simp add: pending_inv_def)
  qed
qed

lemma pending_inv_run: "pending_inv s \<Longrightarrow> pending_inv (run ops echo inps s)"
  by (induction inps arbitrary: s) (simp_all add: pending_inv_loop)

lemma pending_inv_init: "pending_inv init"
  by (simp add: pending_inv_def init_def)

lemma heading_inv_init: "heading_inv init"
  by (simp add: heading_inv_def init_def startAngle_def endAngle_def)

lemma heading_inv_turn:
  assumes inv: "heading_inv s" and k: "incrementAngle s = 10 \<or> incrementAngle s = 20"
  shows "heading_inv (turn_or_advance s)"
proof -
  let ?t = "turn_or_advance s"
  from inv have rng: "30 \<le> ang s" "ang s \<le> 150" and d: "direction s = 1 \<or> direction s = - 1"
    and f: "firstCycle s \<longrightarrow> ang s = 30 \<and> direction s = 1"
    and lo: "\<not> firstCycle s \<and> ang s = 30 \<longrightarrow> direction s = - 1"
    and hi: "ang s = 150 \<longrightarrow> direction s = 1"
    by (simp_all add: heading_inv_def startAngle_def endAngle_def)
  have bd: "at_boundary s \<longleftrightarrow> ang s = 30 \<or> ang s = 150"
    by (simp add: at_boundary_def startAngle_def endAngle_def)
  consider (pend) "at_boundary s" "\<not> firstCycle s" "\<not> repeatBoundary s"
    | (first) "firstCycle s"
    | (rev_lo) "\<not> firstCycle s" "repeatBoundary s" "ang s = 30"
    | (rev_hi) "\<not> firstCycle s" "repeatBoundary s" "ang s = 150"
    | (up) "\<not> firstCycle s" "\<not> at_boundary s" "direction s = 1"
    | (down) "\<not> firstCycle s" "\<not> at_boundary s" "direction s = - 1"
    using d bd by blast
  then have "30 \<le> ang ?t \<and> ang ?t \<le> 150 \<and> (direction ?t = 1 \<or> direction ?t = - 1) \<and>
     \<not> firstCycle ?t \<and> (ang ?t = 30 \<longrightarrow> direction ?t = - 1) \<and>
     (ang ?t = 150 \<longrightarrow> direction ?t = 1) \<or>
     (firstCycle ?t \<and> ang ?t = 30 \<and> direction ?t = 1)"
  proof cases
    case pend
    then have "ang ?t = ang s" "direction ?t = direction s" "\<not> firstCycle ?t"
      by (simp_all add: turn_or_advance_angle)
    then show ?thesis
      using rng d lo hi pend by simp
  next
    case first
    with f have "ang s = 30" "direction s = 1" by simp_all
    with first k have "ang ?t = 30 + incrementAngle s" "direction ?t = 1" "\<not> firstCycle ?t"
      by (auto simp: turn_or_advance_angle bd startAngle_def endAngle_def)
    then show ?thesis
      using k by auto
  next
    case rev_lo
    with lo have "direction s = - 1" by simp
    with rev_lo k have "ang ?t = 30 + incrementAngle s" "direction ?t = 1" "\<not> firstCycle ?t"
      by (auto simp: turn_or_advance_angle bd startAngle_def endAngle_def)
    then show ?thesis
      using k by auto
  next
    case rev_hi
    with hi have "direction s = 1" by simp
    with rev_hi k have "ang ?t = 150 - incrementAngle s" "direction ?t = - 1" "\<not> firstCycle ?t"
      by (auto simp: turn_or_advance_angle bd startAngle_def endAngle_def)
    then show ?thesis
      using k by auto
  next
    case up
    then have "ang ?t = min 150 (max 30 (ang s + incrementAngle s))" "direction ?t = 1"
      "\<not> firstCycle ?t"
      by (simp_all add: turn_or_advance_angle startAngle_def endAngle_def)
    then show ?thesis
      using k rng by auto
  next
    case down
    then have "ang ?t = min 150 (max 30 (ang s - incrementAngle s))" "direction ?t = - 1"
      "\<not> firstCycle ?t"
      by (simp_all add: turn_or_advance_angle startAngle_def endAngle_def)
    then show ?thesis
      using k rng by auto
  qed
  then show ?thesis
    by (auto simp: heading_inv_def startAngle_def endAngle_def)
qed

lemma heading_inv_cong:
  "ang a = ang b \<Longrightarrow> direction a = direction b \<Longrightarrow> firstCycle a = firstCycle b \<Longrightarrow>
   heading_inv a = heading_inv b"
  by (simp add: heading_inv_def)

lemma heading_inv_loop: "heading_inv s \<Longrightarrow> heading_inv (loop ops echo inp s)"
proof (cases inp s rule: loop_cases)
  case stopped
  assume "heading_inv s"
  then show ?thesis
    by (simp add: heading_inv_cong [of "loop ops echo inp s" s] loop_stopped_other [OF stopped])
next
  case idle
  assume "heading_inv s"
  then show ?thesis
    by (simp add: heading_inv_cong [of "loop ops echo inp s" s] loop_idle_other [OF idle])
next
  case step
  assume inv: "heading_inv s"
  let ?b = "s\<lparr>incrementAngle := incrementAngle (poll_buttons inp s)\<rparr>"
  have "heading_inv ?b"
    using inv by (simp add: heading_inv_def)
  then have "heading_inv (turn_or_advance ?b)"
    by (rule heading_inv_turn) (simp add: poll_buttons_flags)
  moreover have "heading_inv (loop ops echo inp s) = heading_inv (turn_or_advance ?b)"
    using loop_step_angle [OF step, of ?b ops echo] by (intro heading_inv_cong) simp_all
  ultimately show ?thesis
    by simp
qed

lemma heading_inv_run: "heading_inv s \<Longrightarrow> heading_inv (run ops echo inps s)"
  by (induction inps arbitrary: s) (simp_all add: heading_inv_loop)

lemma leaves_boundary:
  assumes inv: "heading_inv s" and ts: "takes_step inp s" and bd: "at_boundary s"
    and fr: "firstCycle s \<or> repeatBoundary s"
  shows "ang (loop ops echo inp s) =
           ang s + direction (loop ops echo inp s) * incrementAngle (loop ops echo inp s) \<and>
         \<not> at_boundary (loop ops echo inp s)"
proof -
  let ?s' = "loop ops echo inp s"
  have k: "incrementAngle ?s' = 10 \<or> incrementAngle ?s' = 20"
    by (simp add: loop_flags poll_buttons_flags)
  from inv have f: "firstCycle s \<longrightarrow> ang s = 30 \<and> direction s = 1"
    and lo: "\<not> firstCycle s \<and> ang s = 30 \<longrightarrow> direction s = - 1"
    and hi: "ang s = 150 \<longrightarrow> direction s = 1"
    by (simp_all add: heading_inv_def startAngle_def endAngle_def)
  from bd have b: "ang s = 30 \<or> ang s = 150"
    by (simp add: at_boundary_def startAngle_def endAngle_def)
  note st = loop_step_angle_eq [OF ts, of ops echo]
  consider (first) "firstCycle s" "ang s = 30" "direction s = 1"
    | (rev_lo) "\<not> firstCycle s" "repeatBoundary s" "ang s = 30" "direction s = - 1"
    | (rev_hi) "\<not> firstCycle s" "repeatBoundary s" "ang s = 150" "direction s = 1"
    using f lo hi fr b by blast
  then have "ang ?s' = ang s + direction ?s' * incrementAngle ?s' \<and>
     ang ?s' \<noteq> 30 \<and> ang ?s' \<noteq> 150"
  proof cases
    case first
    then have "direction ?s' = 1" "ang ?s' = min 150 (max 30 (30 + incrementAngle ?s'))"
      using bd by (simp_all add: st startAngle_def endAngle_def)
    then show ?thesis
      using k first by auto
  next
    case rev_lo
    then have "direction ?s' = 1" "ang ?s' = min 150 (max 30 (30 + incrementAngle ?s'))"
      using bd by (simp_all add: st startAngle_def endAngle_def)
    then show ?thesis
      using k rev_lo by auto
  next
    case rev_hi
    then have "direction ?s' = - 1" "ang ?s' = min 150 (max 30 (150 - incrementAngle ?s'))"
      using bd by (simp_all add: st startAngle_def endAngle_def)
    then show ?thesis
      using k rev_hi by auto
  qed
  then show ?thesis
    by (simp add: at_boundary_def startAngle_def endAngle_def)
qed

subsection \<open>The sweep sequence\<close>

lemma on_sweep_step:
  assumes "on_sweep n s" "incrementAngle s = 10"
  shows "on_sweep (Suc n) (turn_or_advance s)"
proof -
  define i where "i = n mod 26"
  have i: "i < 26" by (simp add: i_def)
  have suc: "Suc n mod 26 = (if i = 25 then 0 else Suc i)"
    by (simp add: mod_Suc i_def)
  have n0: "0 < i \<longrightarrow> 0 < n" by (auto simp: i_def)
  from assms have a: "ang s = (if i < 13 then 30 + 10 * int i else 150 - 10 * (int i - 13))"
    and d: "direction s = (if n = 0 \<or> (1 \<le> i \<and> i \<le> 13) then 1 else - 1)"
    and r: "repeatBoundary s = (n \<noteq> 0 \<and> (i = 13 \<or> i = 0))"
    and f: "firstCycle s = (n = 0)"
    by (simp_all add: on_sweep_def sweep_angle_def sweep_dir_def sweep_pending_def i_def Let_def)
  have bd: "at_boundary s \<longleftrightarrow> i = 0 \<or> i = 12 \<or> i = 13 \<or> i = 25"
    using i by (auto simp: at_boundary_def a startAngle_def endAngle_def)
  consider (start) "n = 0" | (z) "n \<noteq> 0" "i = 0" | (up) "1 \<le> i" "i \<le> 11" | (top) "i = 12" | (top2) "i = 13"
    | (down) "14 \<le> i" "i \<le> 24" | (bot) "i = 25"
    using i by linarith
  then show ?thesis
  proof cases
    case start
    then show ?thesis
      using n0 assms(2) a d r f bd suc
      by (simp add: on_sweep_def turn_or_advance_angle sweep_angle_def sweep_dir_def sweep_pending_def startAngle_def endAngle_def)
  next
    case z
    then show ?thesis
      using n0 assms(2) a d r f bd suc
      by (simp add: on_sweep_def turn_or_advance_angle sweep_angle_def sweep_dir_def sweep_pending_def startAngle_def endAngle_def)
  next
    case up
    then show ?thesis
      using n0 assms(2) a d r f bd suc
      by (simp add: on_sweep_def turn_or_advance_angle sweep_angle_def sweep_dir_def sweep_pending_def startAngle_def endAngle_def)
  next
    case top
    then show ?thesis
      using n0 assms(2) a d r f bd suc
      by (simp add: on_sweep_def turn_or_advance_angle sweep_angle_def sweep_dir_def sweep_pending_def startAngle_def endAngle_def)
  next
    case top2
    then show ?thesis
      using n0 assms(2) a d r f bd suc
      by (simp add: on_sweep_def turn_or_advance_angle sweep_angle_def sweep_dir_def sweep_pending_def startAngle_def endAngle_def)
  next
    case down
    then show ?thesis
      using n0 assms(2) a d r f bd suc
      by (simp add: on_sweep_def turn_or_advance_angle sweep_angle_def sweep_dir_def sweep_pending_def startAngle_def endAngle_def)
  next
    case bot
    then show ?thesis
      using n0 assms(2) a d r f bd suc
      by (simp add: on_sweep_def turn_or_advance_angle sweep_angle_def sweep_dir_def sweep_pending_def startAngle_def endAngle_def)
  qed
qed

lemma tracks_sweep_loop:
  assumes "tracks_sweep s" "\<not> emergency_stop (poll_buttons inp s)"
    "currentMode (poll_buttons inp s) = 0"
  shows "tracks_sweep (loop ops echo inp s)"
proof (cases "millis_check inp - lastStepTime s \<ge> stepInterval")
  case False
  with assms show ?thesis
    by (simp add: tracks_sweep_def on_sweep_def loop_idle_other)
next
  case True
  with assms(2) have step: "takes_step inp s"
    by (simp add: takes_step_def)
  let ?b = "s\<lparr>incrementAngle := 10\<rparr>"
  let ?n = "length (sent s)"
  have inc: "incrementAngle (poll_buttons inp s) = 10"
    using assms(3) by (simp add: poll_buttons_flags)
  have "on_sweep ?n ?b"
    using assms(1) by (simp add: tracks_sweep_def on_sweep_def)
  then have "on_sweep (Suc ?n) (turn_or_advance ?b)"
    by (rule on_sweep_step) simp
  moreover note loop_step_angle [OF step, of ?b ops echo]
  ultimately have os: "on_sweep (Suc ?n) (loop ops echo inp s)"
    by (simp add: on_sweep_def inc)
  have "ang s = sweep_angle ?n"
    using assms(1) by (simp add: tracks_sweep_def on_sweep_def)
  then show ?thesis
    using os assms(1) by (simp add: tracks_sweep_def loop_step_other [OF step])
qed

lemma tracks_sweep_run:
  "tracks_sweep s \<Longrightarrow> full_sweep_run ops echo inps s \<Longrightarrow> tracks_sweep (run ops echo inps s)"
  by (induction inps arbitrary: s) (simp_all add: tracks_sweep_loop)

lemma tracks_sweep_init: "tracks_sweep init"
  by (simp add: tracks_sweep_def on_sweep_def init_def sweep_angle_def sweep_dir_def
      sweep_pending_def startAngle_def)

lemma run_append: "run ops echo (xs @ ys) s = run ops echo ys (run ops echo xs s)"
  by (induction xs arbitrary: s) simp_all

lemma full_sweep_run_append:
  "full_sweep_run ops echo (xs @ ys) s \<longleftrightarrow>
     full_sweep_run ops echo xs s \<and> full_sweep_run ops echo ys (run ops echo xs s)"
  by (induction xs arbitrary: s) simp_all

lemma steady_Suc: "steady (Suc n) = steady n @ [tick LOW LOW (500 * Suc n)]"
  by (simp add: steady_def)

lemma steady_run:
  "full_sweep_run ops echo (steady n) init \<and>
   length (sent (run ops echo (steady n) init)) = n \<and>
   lastStepTime (run ops echo (steady n) init) = of_nat (500 * n) \<and>
   \<not> emergency_stop (run ops echo (steady n) init) \<and>
   currentMode (run ops echo (steady n) init) = 0"
proof (induction n)
  case 0
  show ?case by (simp add: steady_def init_simps)
next
  case (Suc n)
  let ?s = "run ops echo (steady n) init"
  define inp where "inp = tick LOW LOW (500 * Suc n)"
  have inp: "stop_read inp = LOW" "mode_read inp = LOW"
    "millis_check inp = of_nat (500 * Suc n)" "millis_stamp inp = of_nat (500 * Suc n)"
    by (simp_all add: inp_def tick_simps)
  have pb: "\<not> emergency_stop (poll_buttons inp ?s)" "currentMode (poll_buttons inp ?s) = 0"
    using Suc.IH by (simp_all add: poll_buttons_flags inp)
  have "millis_check inp - lastStepTime ?s = (500 :: 32 word)"
    using Suc.IH by (simp add: inp)
  with pb have step: "takes_step inp ?s"
    by (simp add: takes_step_def stepInterval_def)
  have st: "steady (Suc n) = steady n @ [inp]"
    by (simp add: steady_Suc inp_def)
  show ?case
    unfolding st
    using Suc.IH pb
    by (simp add: run_append full_sweep_run_append loop_step_other [OF step] loop_flags inp(4))
qed

lemma steady_sweep:
  "map fst (sent (run ops echo (steady n) init)) = map sweep_angle [0..<n] \<and>
   ang (run ops echo (steady n) init) = sweep_angle n \<and>
   direction (run ops echo (steady n) init) = sweep_dir n \<and>
   repeatBoundary (run ops echo (steady n) init) = sweep_pending n"
  using tracks_sweep_run [OF tracks_sweep_init, of ops echo "steady n"] steady_run [of ops echo n]
  by (simp add: tracks_sweep_def on_sweep_def)

lemma sweep_angle_up: "i < 13 \<Longrightarrow> sweep_angle (26 * m + i) = 30 + 10 * int i"
  by (simp add: sweep_angle_def)

lemma sweep_angle_down: "i < 13 \<Longrightarrow> sweep_angle (26 * m + 13 + i) = 150 - 10 * int i"
proof -
  assume "i < 13"
  then have "(26 * m + 13 + i) mod 26 = 13 + i"
    by (simp add: add.assoc)
  then show ?thesis
    by (simp add: sweep_angle_def Let_def)
qed

lemma upt_shift: "[k..<k + n] = map (\<lambda>i. k + i) [0..<n]"
  by (induction n) simp_all

lemma half_sweep_up: "even h \<Longrightarrow> i < 13 \<Longrightarrow> sweep_angle (13 * h + i) = 30 + 10 * int i"
  using sweep_angle_up [of i "h div 2"] by (auto elim!: evenE)

lemma half_sweep_down: "odd h \<Longrightarrow> i < 13 \<Longrightarrow> sweep_angle (13 * h + i) = 150 - 10 * int i"
  using sweep_angle_down [of i "h div 2"] by (auto elim!: oddE simp: algebra_simps)

lemma half_sweep:
  "map sweep_angle [13 * h..<13 * h + 13] =
     (if even h then [30, 40, 50, 60, 70, 80, 90, 100, 110, 120, 130, 140, 150]
      else [150, 140, 130, 120, 110, 100, 90, 80, 70, 60, 50, 40, 30])"
proof -
  have sh: "map sweep_angle [13 * h..<13 * h + 13] =
        map (\<lambda>i. sweep_angle (13 * h + i)) [0..<13]"
    by (simp only: upt_shift [of "13 * h" 13] map_map o_def)
  show ?thesis
  proof (cases "even h")
    case True
    have "map (\<lambda>i. sweep_angle (13 * h + i)) [0..<13] = map (\<lambda>i. 30 + 10 * int i) [0..<13]"
      by (rule map_cong) (simp_all add: half_sweep_up [OF True])
    also have "\<dots> = [30, 40, 50, 60, 70, 80, 90, 100, 110, 120, 130, 140, 150]"
      by code_simp
    finally show ?thesis using True sh by simp
  next
    case False
    have "map (\<lambda>i. sweep_angle (13 * h + i)) [0..<13] = map (\<lambda>i. 150 - 10 * int i) [0..<13]"
      by (rule map_cong) (simp_all add: half_sweep_down [OF False])
    also have "\<dots> = [150, 140, 130, 120, 110, 100, 90, 80, 70, 60, 50, 40, 30]"
      by code_simp
    finally show ?thesis using False sh by simp
  qed
qed

lemma sweep_dir_changes:
  assumes "sweep_dir (Suc n) \<noteq> sweep_dir n"
  shows "0 < n \<and> sweep_angle (n - 1) = sweep_angle n \<and>
         (sweep_angle n = startAngle \<or> sweep_angle n = endAngle)"
proof (cases n)
  case 0
  with assms show ?thesis by (simp add: sweep_dir_def)
next
  case (Suc k)
  define j where "j = k mod 26"
  have j: "j < 26" by (simp add: j_def)
  have nz: "n \<noteq> 0" "n - 1 = k"
    by (simp_all add: Suc)
  have n: "n mod 26 = (if j = 25 then 0 else Suc j)"
    by (simp add: Suc mod_Suc j_def)
  have n': "Suc n mod 26 = (if j = 25 then 1 else if j = 24 then 0 else Suc (Suc j))"
    using j by (simp add: mod_Suc n)
  have "sweep_dir (Suc n) = (if j \<le> 11 \<or> j = 25 then 1 else - 1)"
    using j by (simp add: sweep_dir_def n')
  moreover have "sweep_dir n = (if j \<le> 12 then 1 else - 1)"
    using j by (simp add: sweep_dir_def n nz)
  ultimately have c: "j = 12 \<or> j = 25"
    using assms by (simp split: if_splits)
  have "sweep_angle k = (if j < 13 then 30 + 10 * int j else 150 - 10 * (int j - 13))"
    by (simp add: sweep_angle_def j_def)
  moreover have "sweep_angle n = (if j = 25 then 30 else if Suc j < 13 then 30 + 10 * int (Suc j)
       else 150 - 10 * (int (Suc j) - 13))"
    by (simp add: sweep_angle_def n Let_def)
  ultimately show ?thesis
    using c nz by (auto simp: startAngle_def endAngle_def)
qed

subsection \<open>The full sweep\<close>

text \<open>
  Claim C3. With the sweep from 30 to 150 in steps of 10: in any run from the state
  after \<^verbatim>\<open>setup()\<close> in which, at every pass, the stop flag is clear and the mode is
  the first one, the angles reported are the first \<open>n\<close> of the sequence \<open>sweep_angle\<close>,
  \<open>n\<close> being the number of steps taken. That sequence is made of half-sweeps of 13
  reports: 30, 40, \<dots>, 150, then 150, 140, \<dots>, 30, and so on in turn, so that every
  half-sweep reports the 13 distinct angles and the boundary angle ends one half-sweep
  and begins the next. The direction after \<open>n\<close> steps is \<open>sweep_dir n\<close>; a step
  changes it only when it reports a boundary angle that the step before reported too.
\<close>

theorem full_sweep_sequence:
  "full_sweep_run ops echo inps init \<Longrightarrow>
   (let s' = run ops echo inps init; n = length (sent s')
    in map fst (sent s') = map sweep_angle [0..<n] \<and> ang s' = sweep_angle n \<and>
       direction s' = sweep_dir n) \<and>
   (\<forall>h. map sweep_angle [13 * h..<13 * h + 13] =
      (if even h then [30, 40, 50, 60, 70, 80, 90, 100, 110, 120, 130, 140, 150]
       else [150, 140, 130, 120, 110, 100, 90, 80, 70, 60, 50, 40, 30])) \<and>
   (\<forall>k. sweep_dir (Suc k) \<noteq> sweep_dir k \<longrightarrow>
      0 < k \<and> sweep_angle (k - 1) = sweep_angle k \<and>
      (sweep_angle k = startAngle \<or> sweep_angle k = endAngle)) \<and>
   (\<forall>m. sweep_dir (26 * m + 13) = 1 \<and> sweep_dir (26 * m + 14) = - 1 \<and>
      sweep_dir (26 * m + 26) = - 1 \<and> sweep_dir (26 * m + 27) = 1)"
proof -
  assume a: "full_sweep_run ops echo inps init"
  have t: "tracks_sweep (run ops echo inps init)"
    using tracks_sweep_init a by (rule tracks_sweep_run)
  have d: "sweep_dir (26 * m + 13) = 1 \<and> sweep_dir (26 * m + 14) = - 1 \<and>
      sweep_dir (26 * m + 26) = - 1 \<and> sweep_dir (26 * m + 27) = 1" for m
  proof -
    have "(26 * m + 26) mod 26 = 0" "(26 * m + 27) mod 26 = 1"
      by presburger+
    then show ?thesis
      by (simp add: sweep_dir_def)
  qed
  show ?thesis
    using t half_sweep sweep_dir_changes d
    by (simp add: tracks_sweep_def on_sweep_def Let_def)
qed

theorem full_sweep_sequence_witness:
  "full_sweep_run exact_ops (\<lambda>k. 1000) (steady 28) init \<and>
   map fst (sent (run exact_ops (\<lambda>k. 1000) (steady 28) init)) =
     [30, 40, 50, 60, 70, 80, 90, 100, 110, 120, 130, 140, 150,
      150, 140, 130, 120, 110, 100, 90, 80, 70, 60, 50, 40, 30, 30, 40] \<and>
   direction (run exact_ops (\<lambda>k. 1000) (steady 28) init) = 1 \<and>
   sweep_dir 13 = 1 \<and> sweep_dir 14 = - 1 \<and> sweep_angle 12 = 150 \<and> sweep_angle 13 = 150"
proof -
  let ?s = "run exact_ops (\<lambda>k. 1000) (steady 28) init"
  have f: "full_sweep_run exact_ops (\<lambda>k. 1000) (steady 28) init"
    and n: "length (sent ?s) = 28"
    using steady_run [of exact_ops "\<lambda>k. 1000" 28] by simp_all
  have sq: "map sweep_angle [0..<28] =
     [30, 40, 50, 60, 70, 80, 90, 100, 110, 120, 130, 140, 150,
      150, 140, 130, 120, 110, 100, 90, 80, 70, 60, 50, 40, 30, 30, 40]"
    by code_simp
  have dr: "sweep_dir 28 = 1" "sweep_dir 13 = 1" "sweep_dir 14 = - 1"
    "sweep_angle 12 = 150" "sweep_angle 13 = 150"
    by (simp_all add: sweep_dir_def sweep_angle_def)
  from full_sweep_sequence [OF f]
  have "map fst (sent ?s) = map sweep_angle [0..<length (sent ?s)]"
    and "direction ?s = sweep_dir (length (sent ?s))"
    by (simp_all add: Let_def)
  then show ?thesis
    using f dr by (simp only: n sq)
qed

subsection \<open>Visits of a boundary\<close>

text \<open>
  Claim C1. The sweep starts at \<open>startAngle\<close> with the first-cycle flag set. A step
  taken at a boundary angle reports that angle and then: with the first-cycle flag
  set, clears it and moves on in the same direction; otherwise, with no repeat
  pending, sets the repeat flag and leaves angle and direction as they are, so that
  the next step reports the same angle again; otherwise, with the repeat pending,
  clears the flag, reverses the direction and moves on. In every run from the start
  the direction changes only in a step whose report and the report before it carry
  the same boundary angle: never after fewer than two visits. In such a run the step
  that clears either flag moves the angle one step size off the boundary, so the
  boundary angle is not reported a third time.
\<close>

theorem boundary_visits:
  "ang (init :: 'f sketch) = startAngle \<and> firstCycle (init :: 'f sketch) \<and>
   direction (init :: 'f sketch) = 1 \<and> \<not> repeatBoundary (init :: 'f sketch) \<and>
   (takes_step inp s \<and> at_boundary s \<longrightarrow>
      (let s' = loop (ops :: 'f float_ops) echo inp s
       in sent s' = sent s @ [(ang s, scan_buf ops echo (triggers s), currentMode s')] \<and>
          \<not> firstCycle s' \<and>
          (firstCycle s \<longrightarrow>
             direction s' = direction s \<and> repeatBoundary s' = repeatBoundary s \<and>
             ang s' = min endAngle (max startAngle (ang s + direction s * incrementAngle s'))) \<and>
          (\<not> firstCycle s \<and> \<not> repeatBoundary s \<longrightarrow>
             repeatBoundary s' \<and> ang s' = ang s \<and> direction s' = direction s) \<and>
          (\<not> firstCycle s \<and> repeatBoundary s \<longrightarrow>
             \<not> repeatBoundary s' \<and> direction s' = - direction s \<and>
             ang s' = min endAngle (max startAngle (ang s - direction s * incrementAngle s'))))) \<and>
   (direction (loop ops echo inp (run ops echo inps init)) \<noteq> direction (run ops echo inps init)
      \<longrightarrow> (\<exists>pre a b1 m1 b2 m2. (a = startAngle \<or> a = endAngle) \<and>
             sent (loop ops echo inp (run ops echo inps init)) =
               pre @ [(a, b1, m1), (a, b2, m2)])) \<and>
   (let r = run ops echo inps init; r' = loop ops echo inp r
    in takes_step inp r \<and> at_boundary r \<and> (firstCycle r \<or> repeatBoundary r) \<longrightarrow>
         ang r' = ang r + direction r' * incrementAngle r' \<and> \<not> at_boundary r')"
proof -
  have step: "let s' = loop ops echo inp s
       in sent s' = sent s @ [(ang s, scan_buf ops echo (triggers s), currentMode s')] \<and>
          \<not> firstCycle s' \<and>
          (firstCycle s \<longrightarrow>
             direction s' = direction s \<and> repeatBoundary s' = repeatBoundary s \<and>
             ang s' = min endAngle (max startAngle (ang s + direction s * incrementAngle s'))) \<and>
          (\<not> firstCycle s \<and> \<not> repeatBoundary s \<longrightarrow>
             repeatBoundary s' \<and> ang s' = ang s \<and> direction s' = direction s) \<and>
          (\<not> firstCycle s \<and> repeatBoundary s \<longrightarrow>
             \<not> repeatBoundary s' \<and> direction s' = - direction s \<and>
             ang s' = min endAngle (max startAngle (ang s - direction s * incrementAngle s')))"
    if "takes_step inp s" "at_boundary s"
    using that(2)
    by (simp add: Let_def loop_step_other [OF that(1)] loop_step_angle_eq [OF that(1)] loop_flags)
  have rev: "\<exists>pre a b1 m1 b2 m2. (a = startAngle \<or> a = endAngle) \<and>
             sent (loop ops echo inp (run ops echo inps init)) =
               pre @ [(a, b1, m1), (a, b2, m2)]"
    if ch: "direction (loop ops echo inp (run ops echo inps init)) \<noteq>
            direction (run ops echo inps init)"
  proof -
    let ?s = "run ops echo inps init"
    from direction_changes [OF ch]
    have ts: "takes_step inp ?s" and bd: "at_boundary ?s" and rp: "repeatBoundary ?s"
      by simp_all
    have "pending_inv ?s"
      using pending_inv_init by (rule pending_inv_run)
    with rp have ne: "sent ?s \<noteq> []" and la: "fst (last (sent ?s)) = ang ?s"
      by (simp_all add: pending_inv_def)
    obtain b1 m1 where l: "last (sent ?s) = (ang ?s, b1, m1)"
      using la by (cases "last (sent ?s)") simp
    have "sent ?s = butlast (sent ?s) @ [(ang ?s, b1, m1)]"
      using ne l by (metis append_butlast_last_id)
    then have "sent (loop ops echo inp ?s) =
        butlast (sent ?s) @ [(ang ?s, b1, m1),
          (ang ?s, scan_buf ops echo (triggers ?s), currentMode (poll_buttons inp ?s))]"
      by (simp add: loop_step_other [OF ts])
    then show ?thesis
      using bd unfolding at_boundary_def by blast
  qed
  have "heading_inv (run ops echo inps init)"
    using heading_inv_init by (rule heading_inv_run)
  then have off: "let r = run ops echo inps init; r' = loop ops echo inp r
    in takes_step inp r \<and> at_boundary r \<and> (firstCycle r \<or> repeatBoundary r) \<longrightarrow>
         ang r' = ang r + direction r' * incrementAngle r' \<and> \<not> at_boundary r'"
    using leaves_boundary [of "run ops echo inps init" inp ops echo] by (simp add: Let_def)
  show ?thesis
    using step rev off by (simp add: init_simps)
qed

theorem boundary_visits_witness:
  "takes_step (tick LOW LOW 500) (init :: rat option sketch) \<and>
   at_boundary (init :: rat option sketch) \<and>
   ang (loop exact_ops (\<lambda>k. 1000) (tick LOW LOW 500) init) = 40 \<and>
   direction (loop exact_ops (\<lambda>k. 1000) (tick LOW LOW 500) init) = 1 \<and>
   ang (run exact_ops (\<lambda>k. 1000) (steady 12) init) = 150 \<and>
   \<not> repeatBoundary (run exact_ops (\<lambda>k. 1000) (steady 12) init) \<and>
   ang (run exact_ops (\<lambda>k. 1000) (steady 13) init) = 150 \<and>
   repeatBoundary (run exact_ops (\<lambda>k. 1000) (steady 13) init) \<and>
   direction (run exact_ops (\<lambda>k. 1000) (steady 13) init) = 1 \<and>
   direction (loop exact_ops (\<lambda>k. 1000) (tick LOW LOW 7000)
      (run exact_ops (\<lambda>k. 1000) (steady 13) init)) = - 1 \<and>
   ang (loop exact_ops (\<lambda>k. 1000) (tick LOW LOW 7000)
      (run exact_ops (\<lambda>k. 1000) (steady 13) init)) = 140 \<and>
   (\<exists>pre b1 m1 b2 m2.
      sent (loop exact_ops (\<lambda>k. 1000) (tick LOW LOW 7000)
        (run exact_ops (\<lambda>k. 1000) (steady 13) init)) = pre @ [(150, b1, m1), (150, b2, m2)])"
proof -
  let ?i = "init :: rat option sketch"
  let ?e = "\<lambda>k::nat. 1000 :: 32 word"
  let ?s = "run exact_ops ?e (steady 13) ?i"
  let ?inp = "tick LOW LOW 7000"
  have ts: "takes_step (tick LOW LOW 500) ?i"
    by (simp add: takes_step_def poll_buttons_flags tick_simps init_simps stepInterval_def)
  have bd: "at_boundary ?i"
    by (simp add: at_boundary_def init_simps)
  have inc: "incrementAngle (loop exact_ops ?e (tick LOW LOW 500) ?i) = 10"
    by (simp add: loop_flags poll_buttons_flags tick_simps init_simps)
  have l: "loop exact_ops ?e ?inp ?s = run exact_ops ?e (steady 14) ?i"
    by (simp add: steady_Suc [of 13, simplified] run_append)
  have d13: "direction ?s = 1" and d14: "direction (run exact_ops ?e (steady 14) ?i) = - 1"
    and a13: "ang ?s = 150" and r13: "repeatBoundary ?s"
    and a14: "ang (run exact_ops ?e (steady 14) ?i) = 140"
    and a12: "ang (run exact_ops ?e (steady 12) ?i) = 150"
    and r12: "\<not> repeatBoundary (run exact_ops ?e (steady 12) ?i)"
    using steady_sweep [of exact_ops ?e 12] steady_sweep [of exact_ops ?e 13]
      steady_sweep [of exact_ops ?e 14]
    by (simp_all add: sweep_dir_def sweep_angle_def sweep_pending_def)
  have ch: "direction (loop exact_ops ?e ?inp ?s) \<noteq> direction ?s"
    by (simp add: l d13 d14)
  note first = boundary_visits [where inp = "tick LOW LOW 500" and s = ?i and ops = exact_ops
      and echo = ?e and inps = "[]"]
  note turn = boundary_visits [where inp = ?inp and s = ?s and ops = exact_ops
      and echo = ?e and inps = "steady 13"]
  have f: "ang (loop exact_ops ?e (tick LOW LOW 500) ?i) = 40"
    "direction (loop exact_ops ?e (tick LOW LOW 500) ?i) = 1"
    using first ts bd by (simp_all add: Let_def inc init_simps startAngle_def endAngle_def)
  from turn ch obtain pre a b1 m1 b2 m2 where
    s: "sent (loop exact_ops ?e ?inp ?s) = pre @ [(a, b1, m1), (a, b2, m2)]"
    by blast
  have "ang ?s = a"
    using s steady_run [of exact_ops ?e 13]
    by (simp add: loop_step_other [of ?inp ?s] takes_step_def poll_buttons_flags tick_simps
        stepInterval_def)
  then have "a = 150"
    by (simp add: a13)
  with s have "\<exists>pre b1 m1 b2 m2.
      sent (loop exact_ops ?e ?inp ?s) = pre @ [(150, b1, m1), (150, b2, m2)]"
    by blast
  then show ?thesis
    using ts bd f d13 d14 l a12 r12 a13 r13 a14 by simp
qed

subsection \<open>The fields of a report\<close>

lemma split_commas_field: "CHR '','' \<notin> set f \<Longrightarrow> split_commas (f @ CHR '','' # rest) = f # split_commas rest"
  by (induction f) auto

lemma split_commas_last: "CHR '','' \<notin> set f \<Longrightarrow> split_commas f = [f]"
  by (induction f) auto

lemma split_commas_fields:
  "CHR '','' \<notin> set f \<Longrightarrow> \<forall>g \<in> set fs. CHR '','' \<notin> set g \<Longrightarrow>
   split_commas (f @ concat (map (\<lambda>g. CHR '','' # g) fs)) = f # fs"
proof (induction fs arbitrary: f)
  case Nil
  then show ?case by (simp add: split_commas_last)
next
  case (Cons g gs)
  then show ?case by (simp add: split_commas_field)
qed

lemma digit_not_comma: "d < 10 \<Longrightarrow> char_of (48 + d :: nat) \<noteq> CHR '',''"
proof
  assume d: "d < 10" and "char_of (48 + d) = CHR '',''"
  then have "of_char (char_of (48 + d) :: char) = (of_char CHR '','' :: nat)"
    by simp
  then show False
    using d by simp
qed

lemma digits_of_no_comma: "CHR '','' \<notin> set (digits_of n)"
proof (induction n rule: digits_of.induct)
  case (1 n)
  show ?case
  proof (cases "n < 10")
    case True
    then show ?thesis
      using digit_not_comma [of n] by (subst digits_of.simps) simp
  next
    case False
    then show ?thesis
      using "1" digit_not_comma [of "n mod 10"]
      by (subst digits_of.simps) simp
  qed
qed

lemma print_int_no_comma: "CHR '','' \<notin> set (print_int i)"
  by (simp add: print_int_def digits_of_no_comma)

lemma print_int_mode: "print_int 1 = ''1''" "print_int 2 = ''2''"
  by code_simp+

lemma sendAngleBlock_fields:
  assumes "\<forall>x. CHR '','' \<notin> set (print_float ops x 2)" "length a = 11"
  shows "\<exists>line. sendAngleBlock ops angle_deg a mode = line @ [CHR 0x0D, CHR 0x0A] \<and>
      split_commas line =
        [if mode = 0 then ''1'' else ''2'', print_int angle_deg] @
        map (\<lambda>x. print_float ops x 2) a"
proof -
  let ?fs = "map (\<lambda>x. print_float ops x 2) a"
  let ?line = "print_int (if mode = 0 then 1 else 2) @ CHR '','' #
      (print_int angle_deg @ concat (map (\<lambda>g. CHR '','' # g) ?fs))"
  have "map (\<lambda>i. '','' @ print_float ops (a ! i) 2) [0..<11] =
        map (\<lambda>x. CHR '','' # print_float ops x 2) (map (\<lambda>i. a ! i) [0..<length a])"
    by (simp only: assms(2) map_map o_def) simp
  also have "\<dots> = map (\<lambda>g. CHR '','' # g) ?fs"
    by (simp only: map_nth map_map o_def)
  finally have "sendAngleBlock ops angle_deg a mode = ?line @ [CHR 0x0D, CHR 0x0A]"
    by (simp add: sendAngleBlock_def del: upt_Suc)
  moreover have "split_commas (print_int angle_deg @ concat (map (\<lambda>g. CHR '','' # g) ?fs)) =
      print_int angle_deg # ?fs"
    using assms(1) by (intro split_commas_fields) (auto simp: print_int_no_comma)
  then have "split_commas ?line =
      print_int (if mode = 0 then 1 else 2) # print_int angle_deg # ?fs"
    by (simp only: split_commas_field [OF print_int_no_comma])
  ultimately show ?thesis
    by (auto simp: print_int_mode)
qed

text \<open>
  Claim C8. The text \<^verbatim>\<open>sendAngleBlock\<close> writes for a buffer of 11 floats is one line,
  ended by a carriage return and a line feed, of 13 fields separated by commas: the
  mode identifier, 1 for mode 0 (the full sweep, step size 10) and 2 otherwise, the
  angle in decimal, then the ten raw readings and the mean, each as
  \<^verbatim>\<open>Serial.print(x, 2)\<close> writes it (the float printer never writes a comma). A pass
  of the loop that takes a step appends exactly such a line for the angle it scanned
  and the buffer of that scan, with identifier 1 exactly when the step size is 10; a
  pass that takes no step writes nothing.
\<close>

theorem report_line:
  "(\<forall>x. CHR '','' \<notin> set (print_float ops x 2)) \<Longrightarrow>
   (length a = 11 \<longrightarrow>
      (\<exists>line. sendAngleBlock ops angle_deg a mode = line @ [CHR 0x0D, CHR 0x0A] \<and>
         split_commas line =
           [if mode = 0 then ''1'' else ''2'', print_int angle_deg] @
           map (\<lambda>x. print_float ops x 2) a \<and>
         length (split_commas line) = 13)) \<and>
   (takes_step inp s \<longrightarrow>
      (let s' = loop ops echo inp s
       in \<exists>line. serial_text ops s' = serial_text ops s @ line @ [CHR 0x0D, CHR 0x0A] \<and>
            split_commas line =
              [if incrementAngle s' = 10 then ''1'' else ''2'', print_int (ang s)] @
              map (\<lambda>x. print_float ops x 2) (scan_buf ops echo (triggers s)) \<and>
            length (split_commas line) = 13)) \<and>
   (\<not> takes_step inp s \<longrightarrow> serial_text ops (loop ops echo inp s) = serial_text ops s)"
proof -
  assume pf: "\<forall>x. CHR '','' \<notin> set (print_float ops x 2)"
  have one: "\<exists>line. sendAngleBlock ops angle_deg a mode = line @ [CHR 0x0D, CHR 0x0A] \<and>
         split_commas line =
           [if mode = 0 then ''1'' else ''2'', print_int angle_deg] @
           map (\<lambda>x. print_float ops x 2) a \<and>
         length (split_commas line) = 13" if "length a = 11" for a angle_deg mode
  proof -
    from sendAngleBlock_fields [OF pf that, of angle_deg mode] obtain line where
      l: "sendAngleBlock ops angle_deg a mode = line @ [CHR 0x0D, CHR 0x0A]"
        "split_commas line = [if mode = 0 then ''1'' else ''2'', print_int angle_deg] @
           map (\<lambda>x. print_float ops x 2) a"
      by blast
    then have "length (split_commas line) = 13"
      using that by simp
    with l show ?thesis by blast
  qed
  have two: "let s' = loop ops echo inp s
       in \<exists>line. serial_text ops s' = serial_text ops s @ line @ [CHR 0x0D, CHR 0x0A] \<and>
            split_commas line =
              [if incrementAngle s' = 10 then ''1'' else ''2'', print_int (ang s)] @
              map (\<lambda>x. print_float ops x 2) (scan_buf ops echo (triggers s)) \<and>
            length (split_commas line) = 13" if ts: "takes_step inp s"
  proof -
    let ?s' = "loop ops echo inp s"
    have m: "(currentMode ?s' = 0) = (incrementAngle ?s' = 10)"
      by (simp add: loop_flags poll_buttons_flags)
    have "serial_text ops ?s' = serial_text ops s @
        sendAngleBlock ops (ang s) (scan_buf ops echo (triggers s)) (currentMode ?s')"
      by (simp add: serial_text_def loop_step_other [OF ts] loop_flags)
    then show ?thesis
      using one [of "scan_buf ops echo (triggers s)" "ang s" "currentMode ?s'"]
      by (auto simp: Let_def m length_scan_buf)
  qed
  have three: "serial_text ops (loop ops echo inp s) = serial_text ops s"
    if "\<not> takes_step inp s"
    using that
    by (cases inp s rule: loop_cases)
       (simp_all add: serial_text_def loop_stopped_other loop_idle_other)
  show ?thesis
    using one two three by blast
qed

lemma upt_0_11: "[0..<11] = [0, 1, 2, 3, 4, 5, 6, 7, 8, 9, 10 :: nat]"
  by code_simp

theorem report_line_witness:
  "(\<forall>x. CHR '','' \<notin> set (print_float exact_ops x 2)) \<and>
   sendAngleBlock exact_ops 30
     [None, None, None, None, None, None, None, None,
      Some (44150491 / 125000000), Some (44150491 / 125000000), Some (44150491 / 125000000)] 0 =
     ''1,30,nan,nan,nan,nan,nan,nan,nan,nan,#,#,#'' @ [CHR 0x0D, CHR 0x0A] \<and>
   split_commas ''1,30,nan,nan,nan,nan,nan,nan,nan,nan,#,#,#'' =
     [''1'', ''30'', ''nan'', ''nan'', ''nan'', ''nan'', ''nan'', ''nan'', ''nan'', ''nan'',
      ''#'', ''#'', ''#''] \<and>
   takes_step (tick LOW LOW 500) (init :: rat option sketch) \<and>
   serial_text exact_ops
     (loop exact_ops (\<lambda>k. if k < 8 then 0 else 2000) (tick LOW LOW 500) init) =
     ''1,30,nan,nan,nan,nan,nan,nan,nan,nan,#,#,#'' @ [CHR 0x0D, CHR 0x0A] \<and>
   \<not> takes_step (tick LOW LOW 100) (init :: rat option sketch) \<and>
   serial_text exact_ops
     (loop exact_ops (\<lambda>k. if k < 8 then 0 else 2000) (tick LOW LOW 100) init) = []"
proof -
  let ?i = "init :: rat option sketch"
  let ?echo = "\<lambda>k::nat. if k < 8 then 0 else (2000 :: 32 word)"
  let ?a = "[None, None, None, None, None, None, None, None,
      Some (44150491 / 125000000), Some (44150491 / 125000000), Some (44150491 / 125000000 :: rat)]"
  have pf: "\<forall>x. CHR '','' \<notin> set (print_float exact_ops x 2)"
    by (simp add: exact_ops_def split: option.splits)
  have p30: "print_int 30 = ''30''" "print_int 1 = ''1''"
    by code_simp+
  have e: "sendAngleBlock exact_ops 30 ?a 0 =
     ''1,30,nan,nan,nan,nan,nan,nan,nan,nan,#,#,#'' @ [CHR 0x0D, CHR 0x0A]"
    by (simp add: sendAngleBlock_def upt_0_11 p30 exact_ops_def)
  have len: "length ?a = 11"
    by simp
  from report_line [OF pf, where a = ?a and angle_deg = 30 and mode = 0, THEN conjunct1,
      THEN mp, OF len]
  obtain line where
    l: "sendAngleBlock exact_ops 30 ?a 0 = line @ [CHR 0x0D, CHR 0x0A]"
      "split_commas line = [if (0 :: int) = 0 then ''1'' else ''2'', print_int 30] @
         map (\<lambda>x. print_float exact_ops x 2) ?a"
    by blast
  from l(1) have "line = ''1,30,nan,nan,nan,nan,nan,nan,nan,nan,#,#,#''"
    by (simp only: e append_same_eq)
  with l(2) have "split_commas ''1,30,nan,nan,nan,nan,nan,nan,nan,nan,#,#,#'' =
     [''1'', ''30'', ''nan'', ''nan'', ''nan'', ''nan'', ''nan'', ''nan'', ''nan'', ''nan'',
      ''#'', ''#'', ''#'']"
    by (simp add: p30 exact_ops_def)
  moreover have ts: "takes_step (tick LOW LOW 500) ?i"
    and nts: "\<not> takes_step (tick LOW LOW 100) ?i"
    by (simp_all add: takes_step_def poll_buttons_flags tick_simps init_simps stepInterval_def)
  moreover have "serial_text exact_ops (loop exact_ops ?echo (tick LOW LOW 500) ?i) =
      ''1,30,nan,nan,nan,nan,nan,nan,nan,nan,#,#,#'' @ [CHR 0x0D, CHR 0x0A]"
    using e
    by (simp add: serial_text_def loop_step_other [OF ts] loop_flags poll_buttons_flags
        tick_simps init_simps scan_example startAngle_def)
  moreover have "serial_text exact_ops (loop exact_ops ?echo (tick LOW LOW 100) ?i) = []"
    using report_line [OF pf, where inp = "tick LOW LOW 100" and s = ?i and echo = ?echo] nts
    by (simp add: serial_text_def init_simps)
  ultimately show ?thesis
    using pf e by blast
qed

end
